theory Spec2Isabelle
  imports Main
begin

section \<open>Strings\<close>

text \<open>
  A Python \<open>str\<close> is a sequence of Unicode code points. The source depends on code points
  beyond one byte (the stop marker U+00A9, the whitespace that \<open>str.strip\<close> removes), so a
  string is modelled as a list of code points and an ASCII literal is written \<open>str ''...''\<close>.
\<close>

type_synonym pystr = "nat list"

definition str :: "string \<Rightarrow> pystr" where
  "str s = map of_char s"

text \<open>\<open>sub in s\<close>: \<open>sub\<close> occurs in \<open>s\<close> as a contiguous block.\<close>

fun starts_with :: "pystr \<Rightarrow> pystr \<Rightarrow> bool" where
  "starts_with [] s = True"
| "starts_with (c # cs) [] = False"
| "starts_with (c # cs) (d # ds) = (c = d \<and> starts_with cs ds)"

fun contains :: "pystr \<Rightarrow> pystr \<Rightarrow> bool" where
  "contains sub [] = (sub = [])"
| "contains sub (c # cs) = (starts_with sub (c # cs) \<or> contains sub cs)"

text \<open>
  The code points for which \<open>str.isspace\<close> holds; \<open>str.strip()\<close> without an argument
  removes them from both ends.
\<close>

definition isspace :: "nat \<Rightarrow> bool" where
  "isspace c \<longleftrightarrow>
     (9 \<le> c \<and> c \<le> 13) \<or> (28 \<le> c \<and> c \<le> 32) \<or> c = 133 \<or> c = 160 \<or> c = 5760 \<or>
     (8192 \<le> c \<and> c \<le> 8202) \<or> c = 8232 \<or> c = 8233 \<or> c = 8239 \<or> c = 8287 \<or> c = 12288"

definition strip :: "pystr \<Rightarrow> pystr" where
  "strip s = rev (dropWhile isspace (rev (dropWhile isspace s)))"

text \<open>
  \<open>s.split("  ")\<close>: the occurrences of the two-space separator are taken from the left and do
  not overlap; \<open>cur\<close> is the fragment being read.
\<close>

fun split_dsp :: "pystr \<Rightarrow> pystr \<Rightarrow> pystr list" where
  "split_dsp cur [] = [cur]"
| "split_dsp cur [c] = [cur @ [c]]"
| "split_dsp cur (c # d # s) =
     (if c = 32 \<and> d = 32 then cur # split_dsp [] s else split_dsp (cur @ [c]) (d # s))"

text \<open>\<open>s.replace("%", "")\<close>\<close>

definition remove_percent :: "pystr \<Rightarrow> pystr" where
  "remove_percent s = filter (\<lambda>c. c \<noteq> 37) s"

section \<open>The parser\<close>

text \<open>
  A result row is the Python dict built by \<open>parse_rows\<close>: its items in insertion order.
\<close>

type_synonym row = "(pystr \<times> pystr) list"

definition FIELDS :: "pystr list" where
  "FIELDS = [str ''constituency'', str ''parish'', str ''candidate'', str ''party'',
             str ''votes'', str ''percent'', str ''status'', str ''boxes'']"

definition anchors :: "pystr list" where
  "anchors = [str ''Detailed Results by Constituency'', str ''Constituency Results'']"

text \<open>The last stop marker is the copyright sign, code point U+00A9.\<close>

definition stop_markers :: "pystr list" where
  "stop_markers = [str ''Follow Us'', str ''Connect With Us'', str ''Mobile Apps'', [169]]"

definition status_tokens :: "pystr list" where
  "status_tokens = [str ''Not Started'', str ''Counting'', str ''Declared'']"

text \<open>
  The HTML parser is a library. The document it builds is taken as the sequence of its text
  nodes in document order, which is all that \<open>parse_rows\<close> reads of it.

  \<open>soup.find(string=P)\<close> is the first text node that satisfies \<open>P\<close>; it is returned
  together with the text nodes that follow it, which is what \<open>find_all_next(text=True)\<close>
  enumerates from that node.
\<close>

fun find_string :: "(pystr \<Rightarrow> bool) \<Rightarrow> pystr list \<Rightarrow> (pystr \<times> pystr list) option" where
  "find_string P [] = None"
| "find_string P (n # ns) = (if P n then Some (n, ns) else find_string P ns)"

text \<open>
  The loop over the anchor labels: the first label with a non-empty match wins. When the
  loop ends without \<open>break\<close> the variable holds a falsy value and the parser returns.
\<close>

fun find_anchor :: "pystr list \<Rightarrow> pystr list \<Rightarrow> (pystr \<times> pystr list) option" where
  "find_anchor [] soup = None"
| "find_anchor (label # labels) soup =
     (case find_string (contains label) soup of
        None \<Rightarrow> find_anchor labels soup
      | Some (a, following) \<Rightarrow> if a \<noteq> [] then Some (a, following) else find_anchor labels soup)"

definition has_stop :: "pystr \<Rightarrow> bool" where
  "has_stop s = list_ex (\<lambda>m. contains m s) stop_markers"

definition has_status :: "pystr \<Rightarrow> bool" where
  "has_status s = list_ex (\<lambda>tok. contains tok s) status_tokens"

text \<open>\<open>[p for p in s.split("  ") if p]\<close>\<close>

definition fragments :: "pystr \<Rightarrow> pystr list" where
  "fragments s = filter (\<lambda>p. p \<noteq> []) (split_dsp [] s)"

text \<open>
  An exception stands for an instance of \<open>Exception\<close>, which is what the handler of \<open>main\<close>
  catches, and is modelled by the text \<open>str(e)\<close> it carries. Reading a list at an index
  beyond its end raises \<open>IndexError\<close>.
\<close>

datatype exn = Exception pystr

definition getitem :: "pystr list \<Rightarrow> nat \<Rightarrow> exn + pystr" where
  "getitem xs i =
     (if i < length xs then Inr (xs ! i) else Inl (Exception (str ''list index out of range'')))"

definition bind :: "exn + 'a \<Rightarrow> ('a \<Rightarrow> exn + 'b) \<Rightarrow> exn + 'b" where
  "bind m f = (case m of Inl e \<Rightarrow> Inl e | Inr x \<Rightarrow> f x)"

text \<open>The dict literal, its values read from \<open>parts\<close> in the order written.\<close>

definition make_row :: "pystr list \<Rightarrow> exn + row" where
  "make_row parts =
     bind (getitem parts 0) (\<lambda>p0.
     bind (getitem parts 1) (\<lambda>p1.
     bind (getitem parts 2) (\<lambda>p2.
     bind (getitem parts 3) (\<lambda>p3.
     bind (getitem parts 4) (\<lambda>p4.
     bind (getitem parts 5) (\<lambda>p5.
     bind (getitem parts 6) (\<lambda>p6.
     bind (getitem parts 7) (\<lambda>p7.
       Inr [(str ''constituency'', p0),
            (str ''parish'', p1),
            (str ''candidate'', p2),
            (str ''party'', p3),
            (str ''votes'', p4),
            (str ''percent'', remove_percent p5),
            (str ''status'', p6),
            (str ''boxes'', p7)]))))))))"

text \<open>
  The loop over the nodes after the anchor; \<open>rows\<close> is the list the loop appends to,
  \<open>continue\<close> goes on with the next node and \<open>break\<close> returns what has been collected.
\<close>

fun walk :: "row list \<Rightarrow> pystr list \<Rightarrow> exn + row list" where
  "walk rows [] = Inr rows"
| "walk rows (node # nodes) =
     (let s = strip node in
      if s = [] then walk rows nodes
      else if has_stop s then Inr rows
      else if has_status s then
        (let parts = fragments s in
         if 8 \<le> length parts then
           (case make_row parts of
              Inl e \<Rightarrow> Inl e
            | Inr r \<Rightarrow> walk (rows @ [r]) nodes)
         else walk rows nodes)
      else walk rows nodes)"

text \<open>
  \<open>parse_rows(html)\<close> first builds the document with the library's parser, which may
  raise; \<open>soup\<close> is what that call gives for the page.
\<close>

definition parse_rows :: "exn + pystr list \<Rightarrow> exn + row list" where
  "parse_rows soup =
     (case soup of
        Inl e \<Rightarrow> Inl e
      | Inr nodes \<Rightarrow>
          (case find_anchor anchors nodes of
             None \<Rightarrow> Inr []
           | Some (a, following) \<Rightarrow> walk [] following))"

section \<open>Writing the artifacts\<close>

text \<open>
  The payload handed to \<open>json.dumps\<close>; \<open>results.json\<close> holds its serialisation, which is
  the library's work.
\<close>

datatype json = JString pystr | JArray "json list" | JObject "(pystr \<times> json) list"

definition json_row :: "row \<Rightarrow> json" where
  "json_row r = JObject (map (\<lambda>(k, v). (k, JString v)) r)"

definition URL :: pystr where
  "URL = str ''https://election.jamaicaobserver.com/2025/''"

text \<open>\<open>r.get(k, d)\<close>\<close>

definition dict_get :: "row \<Rightarrow> pystr \<Rightarrow> pystr \<Rightarrow> pystr" where
  "dict_get r k d = (case map_of r k of None \<Rightarrow> d | Some v \<Rightarrow> v)"

text \<open>
  \<open>csv.writer\<close> with the default dialect: delimiter \<open>,\<close> (44), quote character \<open>"\<close> (34)
  doubled inside a quoted field, minimal quoting, line terminator CR LF (13, 10). A field
  is quoted when it holds the delimiter, the quote character or a character of the line
  terminator.
\<close>

definition needs_quote :: "nat \<Rightarrow> bool" where
  "needs_quote c \<longleftrightarrow> c = 44 \<or> c = 34 \<or> c = 13 \<or> c = 10"

definition csv_escape :: "pystr \<Rightarrow> pystr" where
  "csv_escape f = concat (map (\<lambda>c. if c = 34 then [34, 34] else [c]) f)"

definition csv_field :: "pystr \<Rightarrow> pystr" where
  "csv_field f = (if list_ex needs_quote f then [34] @ csv_escape f @ [34] else f)"

fun join_fields :: "pystr list \<Rightarrow> pystr" where
  "join_fields [] = []"
| "join_fields [f] = csv_field f"
| "join_fields (f # g # fs) = csv_field f @ [44] @ join_fields (g # fs)"

text \<open>A record of one empty field is written as a pair of quotes.\<close>

definition csv_writerow :: "pystr list \<Rightarrow> pystr" where
  "csv_writerow fs = (if fs = [[]] then [34, 34] else join_fields fs) @ [13, 10]"

text \<open>
  \<open>csv.DictWriter\<close> with \<open>extrasaction = "raise"\<close> and \<open>restval = ""\<close>: a key outside the
  field names is a \<open>ValueError\<close> (its text, which goes on to list the keys, is cut short
  here), a missing key is written as \<open>restval\<close>.
\<close>

definition DictWriter_writerow :: "pystr list \<Rightarrow> row \<Rightarrow> exn + pystr" where
  "DictWriter_writerow fieldnames rowdict =
     (if list_all (\<lambda>k. k \<in> set fieldnames) (map fst rowdict)
      then Inr (csv_writerow (map (\<lambda>key. dict_get rowdict key []) fieldnames))
      else Inl (Exception (str ''dict contains fields not in fieldnames'')))"

definition DictWriter_writeheader :: "pystr list \<Rightarrow> exn + pystr" where
  "DictWriter_writeheader fieldnames = DictWriter_writerow fieldnames (zip fieldnames fieldnames)"

text \<open>
  The loop \<open>for r in rows: w.writerow({k: r.get(k, "") for k in FIELDS})\<close>; \<open>f\<close> is the
  text written to the file so far.
\<close>

fun write_rows :: "pystr \<Rightarrow> row list \<Rightarrow> exn + pystr" where
  "write_rows f [] = Inr f"
| "write_rows f (r # rows) =
     (case DictWriter_writerow FIELDS (map (\<lambda>k. (k, dict_get r k [])) FIELDS) of
        Inl e \<Rightarrow> Inl e
      | Inr line \<Rightarrow> write_rows (f @ line) rows)"

function str_of_nat :: "nat \<Rightarrow> pystr" where
  "str_of_nat n = (if n < 10 then [48 + n] else str_of_nat (n div 10) @ [48 + n mod 10])"
  by pat_completeness auto
termination
  by (relation "measure id") auto

declare str_of_nat.simps [simp del]

text \<open>
  What one run leaves behind: the payload of \<open>results.json\<close>, the text of \<open>results.csv\<close>,
  the line printed and the value \<open>main\<close> returns. Both files are opened for writing, so they
  hold only what this run wrote. The model stops at the text handed to the file; the
  encoding of that text and the file system are the library's.
\<close>

record outcome =
  results_json :: json
  results_csv :: pystr
  stdout :: pystr
  returned :: nat

text \<open>
  \<open>write_artifacts\<close> returns nothing; the model returns the files and the printed line.
  The clock is read once and its text \<open>ts\<close> is a parameter.
\<close>

definition write_artifacts :: "row list \<Rightarrow> pystr \<Rightarrow> exn + outcome" where
  "write_artifacts rows ts =
     (let payload = JObject [(str ''source'', JString URL), (str ''fetched_at'', JString ts),
                             (str ''rows'', JArray (map json_row rows))]
      in case DictWriter_writeheader FIELDS of
           Inl e \<Rightarrow> Inl e
         | Inr header \<Rightarrow>
             (case write_rows header rows of
                Inl e \<Rightarrow> Inl e
              | Inr f \<Rightarrow>
                  Inr \<lparr>results_json = payload, results_csv = f,
                       stdout = str ''Saved '' @ str_of_nat (length rows) @ str '' rows at '' @ ts,
                       returned = 0\<rparr>))"

section \<open>The run\<close>

text \<open>
  The network is a library: \<open>requests.get\<close> either raises or delivers a response, of which
  the code reads the status (through \<open>raise_for_status\<close>) and the text \<open>r.text\<close>.
\<close>

record response =
  status_code :: nat
  reason :: pystr
  url :: pystr
  resp_text :: pystr

definition raise_for_status :: "response \<Rightarrow> exn + unit" where
  "raise_for_status r =
     (if 400 \<le> status_code r \<and> status_code r < 500 then
        Inl (Exception (str_of_nat (status_code r) @ str '' Client Error: '' @ reason r
                        @ str '' for url: '' @ url r))
      else if 500 \<le> status_code r \<and> status_code r < 600 then
        Inl (Exception (str_of_nat (status_code r) @ str '' Server Error: '' @ reason r
                        @ str '' for url: '' @ url r))
      else Inr ())"

definition fetch_html :: "exn + response \<Rightarrow> exn + pystr" where
  "fetch_html got =
     (case got of
        Inl e \<Rightarrow> Inl e
      | Inr r \<Rightarrow> (case raise_for_status r of Inl e \<Rightarrow> Inl e | Inr u \<Rightarrow> Inr (resp_text r)))"

text \<open>The handler of \<open>main\<close>: empty artifacts with the error text in the JSON payload.\<close>

definition failure :: "exn \<Rightarrow> pystr \<Rightarrow> exn + outcome" where
  "failure e ts =
     (case e of Exception msg \<Rightarrow>
        (case DictWriter_writeheader FIELDS of
           Inl e' \<Rightarrow> Inl e'
         | Inr header \<Rightarrow>
             Inr \<lparr>results_json =
                    JObject [(str ''source'', JString URL), (str ''fetched_at'', JString ts),
                             (str ''rows'', JArray []), (str ''error'', JString msg)],
                  results_csv = header,
                  stdout = str ''Error: '' @ msg,
                  returned = 0\<rparr>))"

text \<open>
  \<open>got\<close> is what \<open>requests.get\<close> gives for the URL and \<open>soup\<close> what the parser gives for the
  page fetched; \<open>soup\<close> is read only when the fetch has returned.
\<close>

definition main :: "exn + response \<Rightarrow> exn + pystr list \<Rightarrow> pystr \<Rightarrow> exn + outcome" where
  "main got soup ts =
     (case fetch_html got of
        Inl e \<Rightarrow> failure e ts
      | Inr html \<Rightarrow>
          (case parse_rows soup of
             Inl e \<Rightarrow> failure e ts
           | Inr rows \<Rightarrow> write_artifacts rows ts))"

text \<open>
  \<open>raise SystemExit(main())\<close>: the exit status is the value returned, and 1 when an
  exception leaves \<open>main\<close>.
\<close>

definition exit_status :: "exn + outcome \<Rightarrow> nat" where
  "exit_status res = (case res of Inl e \<Rightarrow> 1 | Inr out \<Rightarrow> returned out)"

section \<open>Reading the table back\<close>

text \<open>
  The repository only writes \<open>results.csv\<close>. To state what a reader gets back, the reader
  of the same library is modelled: \<open>csv.reader\<close> with the default dialect, over a file opened
  with \<open>newline=""\<close>. It is the state machine of the library's \<open>parse_process_char\<close>,
  without an escape character, not strict, with doubled quotes. Its configurable bound on
  the size of a field is not modelled.

  The reader keeps its state, the field being read and the fields of the record so far.
  An input of \<open>None\<close> is the end of a line.
\<close>

datatype rstate =
  START_RECORD | START_FIELD | IN_FIELD | IN_QUOTED_FIELD | QUOTE_IN_QUOTED_FIELD | EAT_CRNL

record reader =
  state :: rstate
  field :: pystr
  fieldlist :: "pystr list"

definition parse_reset :: reader where
  "parse_reset = \<lparr>state = START_RECORD, field = [], fieldlist = []\<rparr>"

definition parse_save_field :: "reader \<Rightarrow> reader" where
  "parse_save_field rd = rd\<lparr>fieldlist := fieldlist rd @ [field rd], field := []\<rparr>"

definition parse_add_char :: "reader \<Rightarrow> nat \<Rightarrow> reader" where
  "parse_add_char rd c = rd\<lparr>field := field rd @ [c]\<rparr>"

definition is_newline :: "nat option \<Rightarrow> bool" where
  "is_newline c \<longleftrightarrow> c = Some 10 \<or> c = Some 13 \<or> c = None"

definition after_newline :: "nat option \<Rightarrow> rstate" where
  "after_newline c = (if c = None then START_RECORD else EAT_CRNL)"

definition start_field :: "reader \<Rightarrow> nat option \<Rightarrow> reader" where
  "start_field rd c =
     (if is_newline c then (parse_save_field rd)\<lparr>state := after_newline c\<rparr>
      else if c = Some 34 then rd\<lparr>state := IN_QUOTED_FIELD\<rparr>
      else if c = Some 44 then (parse_save_field rd)\<lparr>state := START_FIELD\<rparr>
      else (parse_add_char rd (the c))\<lparr>state := IN_FIELD\<rparr>)"

fun parse_process_char :: "reader \<Rightarrow> nat option \<Rightarrow> exn + reader" where
  "parse_process_char rd c =
     (case state rd of
        START_RECORD \<Rightarrow>
          (if c = None then Inr rd
           else if is_newline c then Inr (rd\<lparr>state := EAT_CRNL\<rparr>)
           else Inr (start_field rd c))
      | START_FIELD \<Rightarrow> Inr (start_field rd c)
      | IN_FIELD \<Rightarrow>
          (if is_newline c then Inr ((parse_save_field rd)\<lparr>state := after_newline c\<rparr>)
           else if c = Some 44 then Inr ((parse_save_field rd)\<lparr>state := START_FIELD\<rparr>)
           else Inr (parse_add_char rd (the c)))
      | IN_QUOTED_FIELD \<Rightarrow>
          (if c = None then Inr rd
           else if c = Some 34 then Inr (rd\<lparr>state := QUOTE_IN_QUOTED_FIELD\<rparr>)
           else Inr (parse_add_char rd (the c)))
      | QUOTE_IN_QUOTED_FIELD \<Rightarrow>
          (if c = Some 34 then Inr ((parse_add_char rd 34)\<lparr>state := IN_QUOTED_FIELD\<rparr>)
           else if c = Some 44 then Inr ((parse_save_field rd)\<lparr>state := START_FIELD\<rparr>)
           else if is_newline c then Inr ((parse_save_field rd)\<lparr>state := after_newline c\<rparr>)
           else Inr ((parse_add_char rd (the c))\<lparr>state := IN_FIELD\<rparr>))
      | EAT_CRNL \<Rightarrow>
          (if c = None then Inr (rd\<lparr>state := START_RECORD\<rparr>)
           else if is_newline c then Inr rd
           else Inl (Exception (str ''new-line character seen in unquoted field''))))"

text \<open>
  A line of the file ends after LF, after CR LF, and after a CR that no LF follows; the
  line ends are kept.
\<close>

definition line_ends :: "nat \<Rightarrow> pystr \<Rightarrow> bool" where
  "line_ends c s \<longleftrightarrow> c = 10 \<or> (c = 13 \<and> (case s of [] \<Rightarrow> True | d # s' \<Rightarrow> d \<noteq> 10))"

text \<open>When the input ends inside a record, what has been read is the last record.\<close>

definition end_of_input :: "reader \<Rightarrow> pystr list list" where
  "end_of_input rd =
     (if field rd \<noteq> [] \<or> state rd = IN_QUOTED_FIELD then [fieldlist (parse_save_field rd)] else [])"

text \<open>
  The reader is fed the characters of each line and then the end of the line; a record is
  complete when the machine is back in \<open>START_RECORD\<close> there, and the next record starts
  from \<open>parse_reset\<close>. \<open>pending\<close> says that the current line has characters, so that a last
  line without a line end is closed too. The result is the list of all records.
\<close>

fun csv_reader :: "reader \<Rightarrow> bool \<Rightarrow> pystr \<Rightarrow> exn + pystr list list" where
  "csv_reader rd pending [] =
     (if pending then
        (case parse_process_char rd None of
           Inl e \<Rightarrow> Inl e
         | Inr rd' \<Rightarrow> if state rd' = START_RECORD then Inr [fieldlist rd'] else Inr (end_of_input rd'))
      else Inr (end_of_input rd))"
| "csv_reader rd pending (c # s) =
     (case parse_process_char rd (Some c) of
        Inl e \<Rightarrow> Inl e
      | Inr rd1 \<Rightarrow>
          if line_ends c s then
            (case parse_process_char rd1 None of
               Inl e \<Rightarrow> Inl e
             | Inr rd2 \<Rightarrow>
                 if state rd2 = START_RECORD then
                   (case csv_reader parse_reset False s of
                      Inl e \<Rightarrow> Inl e
                    | Inr recs \<Rightarrow> Inr (fieldlist rd2 # recs))
                 else csv_reader rd2 False s)
          else csv_reader rd1 True s)"

definition read_csv :: "pystr \<Rightarrow> exn + pystr list list" where
  "read_csv f = csv_reader parse_reset False f"

section \<open>Facts about strings\<close>

lemma starts_with_iff: "starts_with sub s \<longleftrightarrow> (\<exists>q. s = sub @ q)"
  by (induction sub s rule: starts_with.induct) auto

text \<open>\<open>contains\<close> is the substring test.\<close>

lemma contains_iff: "contains sub s \<longleftrightarrow> (\<exists>p q. s = p @ sub @ q)"
proof (induction s)
  case Nil
  then show ?case by auto
next
  case (Cons c cs)
  show ?case
  proof
    assume "contains sub (c # cs)"
    then consider "starts_with sub (c # cs)" | "contains sub cs" by auto
    then show "\<exists>p q. c # cs = p @ sub @ q"
    proof cases
      case 1
      then obtain q where "c # cs = sub @ q" by (auto simp: starts_with_iff)
      then have "c # cs = [] @ sub @ q" by simp
      then show ?thesis by blast
    next
      case 2
      then obtain p q where "cs = p @ sub @ q" using Cons.IH by auto
      then have "c # cs = (c # p) @ sub @ q" by simp
      then show ?thesis by blast
    qed
  next
    assume "\<exists>p q. c # cs = p @ sub @ q"
    then obtain p q where pq: "c # cs = p @ sub @ q" by auto
    show "contains sub (c # cs)"
    proof (cases p)
      case Nil
      then have "starts_with sub (c # cs)" using pq by (auto simp: starts_with_iff)
      then show ?thesis by simp
    next
      case (Cons d ds)
      then have "cs = ds @ sub @ q" using pq by simp
      then have "contains sub cs" using Cons.IH by auto
      then show ?thesis by simp
    qed
  qed
qed

lemma contains_rev: "contains (rev sub) (rev s) = contains sub s"
proof -
  have "(\<exists>p q. rev s = p @ rev sub @ q) \<longleftrightarrow> (\<exists>p q. s = p @ sub @ q)"
  proof
    assume "\<exists>p q. rev s = p @ rev sub @ q"
    then obtain p q where "rev s = p @ rev sub @ q" by auto
    then have "rev (rev s) = rev (p @ rev sub @ q)" by simp
    then have "s = rev q @ sub @ rev p" by simp
    then show "\<exists>p q. s = p @ sub @ q" by blast
  next
    assume "\<exists>p q. s = p @ sub @ q"
    then obtain p q where "s = p @ sub @ q" by auto
    then have "rev s = rev q @ rev sub @ rev p" by simp
    then show "\<exists>p q. rev s = p @ rev sub @ q" by blast
  qed
  then show ?thesis by (simp add: contains_iff)
qed

lemma contains_dropWhile:
  assumes "sub \<noteq> []" and "\<not> isspace (hd sub)"
  shows "contains sub (dropWhile isspace s) = contains sub s"
proof (induction s)
  case Nil
  then show ?case by simp
next
  case (Cons c cs)
  show ?case
  proof (cases "isspace c")
    case True
    with assms have "\<not> starts_with sub (c # cs)" by (cases sub) auto
    with True Cons show ?thesis by simp
  next
    case False
    then show ?thesis by simp
  qed
qed

text \<open>
  A phrase that neither starts nor ends with white space is in the trimmed text exactly
  when it is in the text.
\<close>

lemma contains_strip:
  assumes "sub \<noteq> []" and "\<not> isspace (hd sub)" and "\<not> isspace (last sub)"
  shows "contains sub (strip s) = contains sub s"
proof -
  have r: "rev sub \<noteq> []" "\<not> isspace (hd (rev sub))"
    using assms by (simp_all add: hd_rev)
  have "contains sub (strip s) = contains (rev sub) (dropWhile isspace (rev (dropWhile isspace s)))"
    unfolding strip_def
    using contains_rev [of "rev sub" "dropWhile isspace (rev (dropWhile isspace s))"] by simp
  also have "\<dots> = contains (rev sub) (rev (dropWhile isspace s))"
    using r by (rule contains_dropWhile)
  also have "\<dots> = contains sub (dropWhile isspace s)"
    by (rule contains_rev)
  also have "\<dots> = contains sub s"
    using assms(1,2) by (rule contains_dropWhile)
  finally show ?thesis .
qed

lemma has_stop_strip: "has_stop (strip s) = has_stop s"
  by (simp add: has_stop_def stop_markers_def contains_strip str_def isspace_def)

lemma has_status_strip: "has_status (strip s) = has_status s"
  by (simp add: has_status_def status_tokens_def contains_strip str_def isspace_def)

lemma has_stop_Nil: "\<not> has_stop []"
  by (simp add: has_stop_def stop_markers_def str_def)

lemma fragments_nonempty: "p \<in> set (fragments s) \<Longrightarrow> p \<noteq> []"
  by (simp add: fragments_def)

lemma remove_percent_Nil: "remove_percent p = [] \<longleftrightarrow> set p \<subseteq> {37}"
  by (auto simp: remove_percent_def filter_empty_conv)

section \<open>Facts about the search for the anchor\<close>

lemma find_string_None: "find_string P soup = None \<longleftrightarrow> (\<forall>n\<in>set soup. \<not> P n)"
  by (induction soup) auto

lemma find_string_first:
  "P a \<Longrightarrow> \<forall>n\<in>set pre. \<not> P n \<Longrightarrow> find_string P (pre @ a # post) = Some (a, post)"
  by (induction pre) auto

lemma find_string_Some:
  "find_string P soup = Some (a, post) \<Longrightarrow>
     \<exists>pre. soup = pre @ a # post \<and> P a \<and> (\<forall>n\<in>set pre. \<not> P n)"
proof (induction soup)
  case Nil
  then show ?case by simp
next
  case (Cons n ns)
  show ?case
  proof (cases "P n")
    case True
    with Cons.prems have "n # ns = [] @ a # post \<and> P a \<and> (\<forall>n\<in>set []. \<not> P n)" by simp
    then show ?thesis by blast
  next
    case False
    with Cons obtain pre where "ns = pre @ a # post" "P a" "\<forall>n\<in>set pre. \<not> P n" by auto
    with False have "n # ns = (n # pre) @ a # post \<and> P a \<and> (\<forall>n\<in>set (n # pre). \<not> P n)"
      by simp
    then show ?thesis by blast
  qed
qed

lemma contains_nonempty: "contains sub a \<Longrightarrow> sub \<noteq> [] \<Longrightarrow> a \<noteq> []"
  by (cases a) auto

lemma find_anchor_anchors:
  "find_anchor anchors soup =
     (case find_string (contains (str ''Detailed Results by Constituency'')) soup of
        Some x \<Rightarrow> Some x
      | None \<Rightarrow> find_string (contains (str ''Constituency Results'')) soup)"
proof -
  have ne: "str ''Detailed Results by Constituency'' \<noteq> []" "str ''Constituency Results'' \<noteq> []"
    by (simp_all add: str_def)
  have *: "(case find_string (contains l) soup of None \<Rightarrow> d
            | Some (a, following) \<Rightarrow> if a \<noteq> [] then Some (a, following) else d) =
           (case find_string (contains l) soup of None \<Rightarrow> d | Some x \<Rightarrow> Some x)"
    if "l \<noteq> []" for l d
  proof (cases "find_string (contains l) soup")
    case None
    then show ?thesis by simp
  next
    case (Some x)
    obtain a post where x: "x = (a, post)" by (cases x)
    with Some have "contains l a" using find_string_Some [of "contains l" soup a post] by auto
    with that have "a \<noteq> []" by (auto dest: contains_nonempty)
    with Some x show ?thesis by simp
  qed
  show ?thesis
    unfolding anchors_def find_anchor.simps *[OF ne(1)] *[OF ne(2)]
    by (simp split: option.splits)
qed

section \<open>Facts about the loop\<close>

lemma getitem_ok: "i < length xs \<Longrightarrow> getitem xs i = Inr (xs ! i)"
  by (simp add: getitem_def)

text \<open>With eight fragments or more no index is out of range.\<close>

lemma make_row_ok:
  assumes "8 \<le> length parts"
  shows "make_row parts =
     Inr [(str ''constituency'', parts ! 0), (str ''parish'', parts ! 1),
          (str ''candidate'', parts ! 2), (str ''party'', parts ! 3),
          (str ''votes'', parts ! 4), (str ''percent'', remove_percent (parts ! 5)),
          (str ''status'', parts ! 6), (str ''boxes'', parts ! 7)]"
proof -
  from assms have "0 < length parts" by (cases parts) auto
  with assms show ?thesis by (simp add: make_row_def getitem_ok bind_def)
qed

lemma walk_acc: "walk rows nodes = Inr out \<Longrightarrow> walk (pre @ rows) nodes = Inr (pre @ out)"
proof (induction nodes arbitrary: rows out)
  case Nil
  then show ?case by simp
next
  case (Cons n ns)
  from Cons.prems show ?case
    using Cons.IH [of rows out] Cons.IH [of "rows @ [r]" out for r]
    by (auto simp: Let_def split: if_splits sum.splits)
qed

lemma walk_total: "\<exists>out. walk rows nodes = Inr out"
proof (induction nodes arbitrary: rows)
  case Nil
  then show ?case by simp
next
  case (Cons n ns)
  show ?case
    using Cons [of rows] Cons [of "rows @ [r]" for r]
    by (auto simp: Let_def make_row_ok)
qed

lemma walk_stop_here: "has_stop n \<Longrightarrow> walk rows (n # post) = Inr rows"
  using has_stop_strip [of n] has_stop_Nil by (auto simp: Let_def)

lemma walk_stop: "has_stop n \<Longrightarrow> walk rows (pre @ n # post) = walk rows pre"
proof (induction pre arbitrary: rows)
  case Nil
  then show ?case by (simp add: walk_stop_here del: walk.simps(2))
next
  case (Cons m ms)
  then show ?case by (simp add: Let_def split: sum.splits)
qed

lemma walk_append:
  assumes "\<forall>n\<in>set pre. \<not> has_stop n" and "walk rows pre = Inr mid"
  shows "walk rows (pre @ post) = walk mid post"
  using assms
proof (induction pre arbitrary: rows)
  case Nil
  then show ?case by simp
next
  case (Cons m ms)
  from Cons.prems have "\<not> has_stop (strip m)" by (simp add: has_stop_strip)
  with Cons show ?case by (auto simp: Let_def split: sum.splits if_splits)
qed

lemma walk_skip:
  assumes "\<not> has_stop n" and "\<not> (has_status (strip n) \<and> 8 \<le> length (fragments (strip n)))"
  shows "walk rows (n # post) = walk rows post"
  using assms by (auto simp: Let_def has_stop_strip)

lemma walk_emit:
  assumes "\<not> has_stop n" and "has_status (strip n)" and "8 \<le> length (fragments (strip n))"
    and "make_row (fragments (strip n)) = Inr r"
  shows "walk rows (n # post) = walk (rows @ [r]) post"
proof -
  from assms(3) have "fragments (strip n) \<noteq> []" by auto
  then have "strip n \<noteq> []" by (auto simp: fragments_def)
  with assms show ?thesis by (simp add: Let_def has_stop_strip)
qed

text \<open>Every row comes from a node of the list walked, or was there before.\<close>

lemma walk_from:
  "walk rows nodes = Inr out \<Longrightarrow> r \<in> set out \<Longrightarrow>
     r \<in> set rows \<or>
     (\<exists>n\<in>set nodes. has_status (strip n) \<and> 8 \<le> length (fragments (strip n)) \<and>
        make_row (fragments (strip n)) = Inr r)"
proof (induction nodes arbitrary: rows)
  case Nil
  then show ?case by simp
next
  case (Cons m ms)
  from Cons.prems show ?case
    using Cons.IH [of rows] Cons.IH [of "rows @ [r']" for r']
    by (fastforce simp: Let_def split: if_splits sum.splits)
qed


lemma walk_drop:
  assumes "\<not> has_stop n" and "\<not> (has_status (strip n) \<and> 8 \<le> length (fragments (strip n)))"
  shows "walk rows (pre @ n # post) = walk rows (pre @ post)"
proof (induction pre arbitrary: rows)
  case Nil
  from assms show ?case by (simp add: walk_skip del: walk.simps(2))
next
  case (Cons m ms)
  then show ?case by (simp add: Let_def split: sum.splits)
qed

lemma walk_emit_mid:
  assumes "\<forall>m\<in>set before. \<not> has_stop m" and "\<not> has_stop n" and "has_status (strip n)"
    and "8 \<le> length (fragments (strip n))"
    and "make_row (fragments (strip n)) = Inr r"
  shows "\<exists>rs1 rs2. walk [] before = Inr rs1 \<and> walk [] later = Inr rs2 \<and>
           walk [] (before @ n # later) = Inr (rs1 @ [r] @ rs2)"
proof -
  obtain rs1 where rs1: "walk [] before = Inr rs1" using walk_total by blast
  obtain rs2 where rs2: "walk [] later = Inr rs2" using walk_total by blast
  have "walk [] (before @ n # later) = walk rs1 (n # later)"
    using assms(1) rs1 by (rule walk_append)
  also have "\<dots> = walk (rs1 @ [r]) later"
    using assms(2-5) by (rule walk_emit)
  also have "\<dots> = Inr ((rs1 @ [r]) @ rs2)"
    using walk_acc [OF rs2, of "rs1 @ [r]"] by simp
  finally show ?thesis using rs1 rs2 by simp
qed

lemma parse_rows_found:
  "find_anchor anchors nodes = Some (a, following) \<Longrightarrow> parse_rows (Inr nodes) = walk [] following"
  by (simp add: parse_rows_def)

section \<open>The parser: claims\<close>

text \<open>
  C3: when no text node of the document contains either anchor phrase, the parser returns
  the empty sequence, as a result and not as an error.
\<close>

theorem parse_rows_no_anchor:
  assumes "\<forall>n\<in>set nodes. \<not> contains (str ''Detailed Results by Constituency'') n \<and>
                          \<not> contains (str ''Constituency Results'') n"
  shows "parse_rows (Inr nodes) = Inr []"
proof -
  from assms have "find_string (contains (str ''Detailed Results by Constituency'')) nodes = None"
    and "find_string (contains (str ''Constituency Results'')) nodes = None"
    by (simp_all add: find_string_None)
  then have "find_anchor anchors nodes = None"
    by (simp add: find_anchor_anchors)
  then show ?thesis by (simp add: parse_rows_def)
qed

theorem parse_rows_no_anchor_witness:
  "parse_rows (Inr [str ''Results'', str ''A  B  C  D  1  2%  Declared  3'']) = Inr []"
  using parse_rows_no_anchor [of "[str ''Results'', str ''A  B  C  D  1  2%  Declared  3'']"]
  by (simp add: str_def)

text \<open>
  C4: the anchor is the first text node, in document order, that contains
  "Detailed Results by Constituency"; when no node contains that phrase it is the first
  node that contains "Constituency Results". The rows are those of the loop run over the
  nodes after the anchor node, and each of them is built from one of these nodes.
\<close>

theorem parse_rows_anchor:
  assumes "nodes = pre @ a # post"
    and "(contains (str ''Detailed Results by Constituency'') a \<and>
          (\<forall>n\<in>set pre. \<not> contains (str ''Detailed Results by Constituency'') n)) \<or>
         ((\<forall>n\<in>set nodes. \<not> contains (str ''Detailed Results by Constituency'') n) \<and>
          contains (str ''Constituency Results'') a \<and>
          (\<forall>n\<in>set pre. \<not> contains (str ''Constituency Results'') n))"
  shows "find_anchor anchors nodes = Some (a, post) \<and>
         parse_rows (Inr nodes) = walk [] post \<and>
         (\<forall>rows r. parse_rows (Inr nodes) = Inr rows \<longrightarrow> r \<in> set rows \<longrightarrow>
            (\<exists>n\<in>set post. make_row (fragments (strip n)) = Inr r))"
proof -
  have fa: "find_anchor anchors nodes = Some (a, post)"
    using assms(2)
  proof
    assume "contains (str ''Detailed Results by Constituency'') a \<and>
            (\<forall>n\<in>set pre. \<not> contains (str ''Detailed Results by Constituency'') n)"
    then have "find_string (contains (str ''Detailed Results by Constituency'')) nodes = Some (a, post)"
      unfolding assms(1) by (simp add: find_string_first)
    then show ?thesis by (simp add: find_anchor_anchors)
  next
    assume h: "(\<forall>n\<in>set nodes. \<not> contains (str ''Detailed Results by Constituency'') n) \<and>
               contains (str ''Constituency Results'') a \<and>
               (\<forall>n\<in>set pre. \<not> contains (str ''Constituency Results'') n)"
    then have "find_string (contains (str ''Detailed Results by Constituency'')) nodes = None"
      by (simp add: find_string_None)
    moreover from h have "find_string (contains (str ''Constituency Results'')) nodes = Some (a, post)"
      unfolding assms(1) by (simp add: find_string_first)
    ultimately show ?thesis by (simp add: find_anchor_anchors)
  qed
  then have pr: "parse_rows (Inr nodes) = walk [] post" by (rule parse_rows_found)
  have "\<exists>n\<in>set post. make_row (fragments (strip n)) = Inr r"
    if "parse_rows (Inr nodes) = Inr rows" and "r \<in> set rows" for rows r
    using walk_from [of "[]" post rows r] that pr by auto
  with fa pr show ?thesis by blast
qed

text \<open>
  In the witness a node with "Constituency Results" and a row come first; the anchor is the
  later node with "Detailed Results by Constituency", and only the row after it is read.
\<close>

theorem parse_rows_anchor_witness:
  "parse_rows (Inr [str ''Constituency Results'', str ''A  B  C  D  1  2%  Declared  3'',
                    str ''Detailed Results by Constituency'', str ''E  F  G  H  4  5%  Counting  6'']) =
   Inr [[(str ''constituency'', str ''E''), (str ''parish'', str ''F''),
         (str ''candidate'', str ''G''), (str ''party'', str ''H''), (str ''votes'', str ''4''),
         (str ''percent'', str ''5''), (str ''status'', str ''Counting''), (str ''boxes'', str ''6'')]]"
proof -
  have w: "walk [] [str ''E  F  G  H  4  5%  Counting  6''] =
    Inr [[(str ''constituency'', str ''E''), (str ''parish'', str ''F''),
         (str ''candidate'', str ''G''), (str ''party'', str ''H''), (str ''votes'', str ''4''),
         (str ''percent'', str ''5''), (str ''status'', str ''Counting''), (str ''boxes'', str ''6'')]]"
    by (simp add: str_def strip_def isspace_def has_stop_def has_status_def stop_markers_def
        status_tokens_def fragments_def make_row_def remove_percent_def getitem_def bind_def)
  have "parse_rows (Inr [str ''Constituency Results'', str ''A  B  C  D  1  2%  Declared  3'',
                    str ''Detailed Results by Constituency'', str ''E  F  G  H  4  5%  Counting  6'']) =
        walk [] [str ''E  F  G  H  4  5%  Counting  6'']"
    using parse_rows_anchor [of
        "[str ''Constituency Results'', str ''A  B  C  D  1  2%  Declared  3'',
          str ''Detailed Results by Constituency'', str ''E  F  G  H  4  5%  Counting  6'']"
        "[str ''Constituency Results'', str ''A  B  C  D  1  2%  Declared  3'']"
        "str ''Detailed Results by Constituency''"
        "[str ''E  F  G  H  4  5%  Counting  6'']"]
    by (simp add: str_def)
  with w show ?thesis by simp
qed


text \<open>
  C5: when a text node after the anchor contains a stop marker, the result is that of the
  loop over the nodes between the anchor and that node: neither the node nor any node
  after it gives a row, whatever these later nodes hold.
\<close>

theorem parse_rows_stop:
  assumes "find_anchor anchors nodes = Some (a, before @ n # later)"
    and "has_stop n"
  shows "parse_rows (Inr nodes) = walk [] before \<and>
         (\<forall>rows r. parse_rows (Inr nodes) = Inr rows \<longrightarrow> r \<in> set rows \<longrightarrow>
            (\<exists>m\<in>set before. make_row (fragments (strip m)) = Inr r))"
proof -
  have pr: "parse_rows (Inr nodes) = walk [] before"
    using assms by (simp add: parse_rows_found walk_stop)
  have "\<exists>m\<in>set before. make_row (fragments (strip m)) = Inr r"
    if "parse_rows (Inr nodes) = Inr rows" and "r \<in> set rows" for rows r
    using walk_from [of "[]" before rows r] that pr by auto
  with pr show ?thesis by blast
qed

theorem parse_rows_stop_witness:
  "parse_rows (Inr [str ''Constituency Results'', str ''A  B  C  D  1  2%  Declared  3'',
                    str ''Follow Us on'', str ''E  F  G  H  4  5%  Counting  6'']) =
   Inr [[(str ''constituency'', str ''A''), (str ''parish'', str ''B''),
         (str ''candidate'', str ''C''), (str ''party'', str ''D''), (str ''votes'', str ''1''),
         (str ''percent'', str ''2''), (str ''status'', str ''Declared''), (str ''boxes'', str ''3'')]]"
proof -
  have fa: "find_anchor anchors [str ''Constituency Results'', str ''A  B  C  D  1  2%  Declared  3'',
                    str ''Follow Us on'', str ''E  F  G  H  4  5%  Counting  6''] =
        Some (str ''Constituency Results'',
              [str ''A  B  C  D  1  2%  Declared  3''] @ str ''Follow Us on'' #
              [str ''E  F  G  H  4  5%  Counting  6''])"
    by (simp add: anchors_def str_def)
  have st: "has_stop (str ''Follow Us on'')"
    by (simp add: has_stop_def stop_markers_def str_def)
  have w: "walk [] [str ''A  B  C  D  1  2%  Declared  3''] =
    Inr [[(str ''constituency'', str ''A''), (str ''parish'', str ''B''),
         (str ''candidate'', str ''C''), (str ''party'', str ''D''), (str ''votes'', str ''1''),
         (str ''percent'', str ''2''), (str ''status'', str ''Declared''), (str ''boxes'', str ''3'')]]"
    by (simp add: str_def strip_def isspace_def has_stop_def has_status_def stop_markers_def
        status_tokens_def fragments_def make_row_def remove_percent_def getitem_def bind_def)
  from parse_rows_stop [OF fa st] w show ?thesis by simp
qed

text \<open>
  C6: a text node after the anchor whose trimmed text contains a status token and splits
  into fewer than eight non-empty fragments gives no row: the result is the one for the
  document without that node (when the node holds a stop marker as well, the one for the
  nodes before it), and it is a result, not an error.
\<close>

theorem parse_rows_short:
  assumes "find_anchor anchors nodes = Some (a, before @ n # later)"
    and "has_status (strip n)"
    and "length (fragments (strip n)) < 8"
  shows "parse_rows (Inr nodes) = (if has_stop n then walk [] before else walk [] (before @ later)) \<and>
         (\<exists>rows. parse_rows (Inr nodes) = Inr rows)"
proof -
  from assms(3) have short: "\<not> (has_status (strip n) \<and> 8 \<le> length (fragments (strip n)))"
    by simp
  have pr: "parse_rows (Inr nodes) = walk [] (before @ n # later)"
    using assms(1) by (rule parse_rows_found)
  have "walk [] (before @ n # later) = (if has_stop n then walk [] before else walk [] (before @ later))"
    using short by (simp add: walk_stop walk_drop)
  with pr walk_total [of "[]" "before @ n # later"] show ?thesis by simp
qed

theorem parse_rows_short_witness:
  "parse_rows (Inr [str ''Constituency Results'', str ''A  B  C  D  1  Counting  3'',
                    str ''E  F  G  H  4  5%  Counting  6'']) =
   Inr [[(str ''constituency'', str ''E''), (str ''parish'', str ''F''),
         (str ''candidate'', str ''G''), (str ''party'', str ''H''), (str ''votes'', str ''4''),
         (str ''percent'', str ''5''), (str ''status'', str ''Counting''), (str ''boxes'', str ''6'')]]"
proof -
  have fa: "find_anchor anchors [str ''Constituency Results'', str ''A  B  C  D  1  Counting  3'',
                    str ''E  F  G  H  4  5%  Counting  6''] =
        Some (str ''Constituency Results'',
              [] @ str ''A  B  C  D  1  Counting  3'' # [str ''E  F  G  H  4  5%  Counting  6''])"
    by (simp add: anchors_def str_def)
  have st: "has_status (strip (str ''A  B  C  D  1  Counting  3''))"
    by (simp add: has_status_strip) (simp add: has_status_def status_tokens_def str_def)
  have fr: "length (fragments (strip (str ''A  B  C  D  1  Counting  3''))) < 8"
    by (simp add: str_def strip_def isspace_def fragments_def)
  have ns: "\<not> has_stop (str ''A  B  C  D  1  Counting  3'')"
    by (simp add: has_stop_def stop_markers_def str_def)
  have w: "walk [] [str ''E  F  G  H  4  5%  Counting  6''] =
    Inr [[(str ''constituency'', str ''E''), (str ''parish'', str ''F''),
         (str ''candidate'', str ''G''), (str ''party'', str ''H''), (str ''votes'', str ''4''),
         (str ''percent'', str ''5''), (str ''status'', str ''Counting''), (str ''boxes'', str ''6'')]]"
    by (simp add: str_def strip_def isspace_def has_stop_def has_status_def stop_markers_def
        status_tokens_def fragments_def make_row_def remove_percent_def getitem_def bind_def)
  from parse_rows_short [OF fa st fr] ns w show ?thesis by simp
qed


text \<open>
  C1: a text node after the anchor, with no stop marker in it or in a node between the
  anchor and it, whose trimmed text contains a status token and splits into exactly eight
  non-empty fragments, gives exactly one row, between the rows of the nodes before it and
  the rows of the nodes after it: the eight fragments in the order constituency, parish,
  candidate, party, votes, percent, status, boxes, the percent fragment without its
  characters "%" (code point 37). In particular the document of the anchor
  "Constituency Results", the node "East Kingston  Kingston  Jane Doe  PNP  12345  55.2%
  Declared  42" and a node with the copyright sign gives the one row of that node.
\<close>

theorem parse_rows_eight_fragments:
  "(\<forall>nodes a before n later p0 p1 p2 p3 p4 p5 p6 p7.
      find_anchor anchors nodes = Some (a, before @ n # later) \<longrightarrow>
      (\<forall>m\<in>set (before @ [n]). \<not> has_stop m) \<longrightarrow>
      has_status (strip n) \<longrightarrow>
      fragments (strip n) = [p0, p1, p2, p3, p4, p5, p6, p7] \<longrightarrow>
      (\<exists>rs1 rs2. walk [] before = Inr rs1 \<and> walk [] later = Inr rs2 \<and>
         parse_rows (Inr nodes) =
           Inr (rs1 @ [[(str ''constituency'', p0), (str ''parish'', p1),
                        (str ''candidate'', p2), (str ''party'', p3), (str ''votes'', p4),
                        (str ''percent'', filter (\<lambda>c. c \<noteq> 37) p5),
                        (str ''status'', p6), (str ''boxes'', p7)]] @ rs2))) \<and>
   parse_rows (Inr [str ''Constituency Results'',
                    str ''East Kingston  Kingston  Jane Doe  PNP  12345  55.2%  Declared  42'',
                    [169]]) =
     Inr [[(str ''constituency'', str ''East Kingston''), (str ''parish'', str ''Kingston''),
           (str ''candidate'', str ''Jane Doe''), (str ''party'', str ''PNP''),
           (str ''votes'', str ''12345''), (str ''percent'', str ''55.2''),
           (str ''status'', str ''Declared''), (str ''boxes'', str ''42'')]]"
proof (intro conjI allI impI)
  fix nodes a before n later p0 p1 p2 p3 p4 p5 p6 p7
  assume fa: "find_anchor anchors nodes = Some (a, before @ n # later)"
    and ns: "\<forall>m\<in>set (before @ [n]). \<not> has_stop m"
    and st: "has_status (strip n)"
    and fr: "fragments (strip n) = [p0, p1, p2, p3, p4, p5, p6, p7]"
  from fr have len: "8 \<le> length (fragments (strip n))" by simp
  have mr: "make_row (fragments (strip n)) =
      Inr [(str ''constituency'', p0), (str ''parish'', p1),
           (str ''candidate'', p2), (str ''party'', p3), (str ''votes'', p4),
           (str ''percent'', filter (\<lambda>c. c \<noteq> 37) p5),
           (str ''status'', p6), (str ''boxes'', p7)]"
    using make_row_ok [OF len] by (simp add: fr remove_percent_def)
  from ns have ns1: "\<forall>m\<in>set before. \<not> has_stop m" and ns2: "\<not> has_stop n" by simp_all
  from walk_emit_mid [OF ns1 ns2 st len mr, of later] parse_rows_found [OF fa]
  show "\<exists>rs1 rs2. walk [] before = Inr rs1 \<and> walk [] later = Inr rs2 \<and>
         parse_rows (Inr nodes) =
           Inr (rs1 @ [[(str ''constituency'', p0), (str ''parish'', p1),
                        (str ''candidate'', p2), (str ''party'', p3), (str ''votes'', p4),
                        (str ''percent'', filter (\<lambda>c. c \<noteq> 37) p5),
                        (str ''status'', p6), (str ''boxes'', p7)]] @ rs2)"
    by simp
next
  show "parse_rows (Inr [str ''Constituency Results'',
                    str ''East Kingston  Kingston  Jane Doe  PNP  12345  55.2%  Declared  42'',
                    [169]]) =
     Inr [[(str ''constituency'', str ''East Kingston''), (str ''parish'', str ''Kingston''),
           (str ''candidate'', str ''Jane Doe''), (str ''party'', str ''PNP''),
           (str ''votes'', str ''12345''), (str ''percent'', str ''55.2''),
           (str ''status'', str ''Declared''), (str ''boxes'', str ''42'')]]"
    by (simp add: parse_rows_def anchors_def str_def strip_def isspace_def has_stop_def
        has_status_def stop_markers_def status_tokens_def fragments_def make_row_def
        remove_percent_def getitem_def bind_def)
qed

text \<open>
  The witness takes the general part at a document with a row before the node and a row
  after it, and a percent fragment with two "%".
\<close>

theorem parse_rows_eight_fragments_witness:
  "parse_rows (Inr [str ''Detailed Results by Constituency'', str ''A  B  C  D  1  2%  Declared  3'',
                    str '' West  Hanover  John Roe  JLP  77  %4%4  Not Started  0 '',
                    str ''E  F  G  H  4  5%  Counting  6'']) =
   Inr [[(str ''constituency'', str ''A''), (str ''parish'', str ''B''),
         (str ''candidate'', str ''C''), (str ''party'', str ''D''), (str ''votes'', str ''1''),
         (str ''percent'', str ''2''), (str ''status'', str ''Declared''), (str ''boxes'', str ''3'')],
        [(str ''constituency'', str ''West''), (str ''parish'', str ''Hanover''),
         (str ''candidate'', str ''John Roe''), (str ''party'', str ''JLP''), (str ''votes'', str ''77''),
         (str ''percent'', str ''44''), (str ''status'', str ''Not Started''), (str ''boxes'', str ''0'')],
        [(str ''constituency'', str ''E''), (str ''parish'', str ''F''),
         (str ''candidate'', str ''G''), (str ''party'', str ''H''), (str ''votes'', str ''4''),
         (str ''percent'', str ''5''), (str ''status'', str ''Counting''), (str ''boxes'', str ''6'')]]"
proof -
  have fa: "find_anchor anchors [str ''Detailed Results by Constituency'', str ''A  B  C  D  1  2%  Declared  3'',
                    str '' West  Hanover  John Roe  JLP  77  %4%4  Not Started  0 '',
                    str ''E  F  G  H  4  5%  Counting  6''] =
        Some (str ''Detailed Results by Constituency'',
              [str ''A  B  C  D  1  2%  Declared  3''] @
              str '' West  Hanover  John Roe  JLP  77  %4%4  Not Started  0 '' #
              [str ''E  F  G  H  4  5%  Counting  6''])"
    by (simp add: anchors_def str_def)
  have ns: "\<forall>m\<in>set ([str ''A  B  C  D  1  2%  Declared  3''] @
                    [str '' West  Hanover  John Roe  JLP  77  %4%4  Not Started  0 '']). \<not> has_stop m"
    by (simp add: has_stop_def stop_markers_def str_def)
  have st: "has_status (strip (str '' West  Hanover  John Roe  JLP  77  %4%4  Not Started  0 ''))"
    by (simp add: has_status_strip) (simp add: has_status_def status_tokens_def str_def)
  have fr: "fragments (strip (str '' West  Hanover  John Roe  JLP  77  %4%4  Not Started  0 '')) =
      [str ''West'', str ''Hanover'', str ''John Roe'', str ''JLP'', str ''77'', str ''%4%4'',
       str ''Not Started'', str ''0'']"
    by (simp add: str_def strip_def isspace_def fragments_def)
  have w1: "walk [] [str ''A  B  C  D  1  2%  Declared  3''] =
    Inr [[(str ''constituency'', str ''A''), (str ''parish'', str ''B''),
         (str ''candidate'', str ''C''), (str ''party'', str ''D''), (str ''votes'', str ''1''),
         (str ''percent'', str ''2''), (str ''status'', str ''Declared''), (str ''boxes'', str ''3'')]]"
    by (simp add: str_def strip_def isspace_def has_stop_def has_status_def stop_markers_def
        status_tokens_def fragments_def make_row_def remove_percent_def getitem_def bind_def)
  have w2: "walk [] [str ''E  F  G  H  4  5%  Counting  6''] =
    Inr [[(str ''constituency'', str ''E''), (str ''parish'', str ''F''),
         (str ''candidate'', str ''G''), (str ''party'', str ''H''), (str ''votes'', str ''4''),
         (str ''percent'', str ''5''), (str ''status'', str ''Counting''), (str ''boxes'', str ''6'')]]"
    by (simp add: str_def strip_def isspace_def has_stop_def has_status_def stop_markers_def
        status_tokens_def fragments_def make_row_def remove_percent_def getitem_def bind_def)
  have pc: "filter (\<lambda>c. c \<noteq> 37) (str ''%4%4'') = str ''44''"
    by (simp add: str_def)
  from parse_rows_eight_fragments [THEN conjunct1, rule_format, OF fa ns [rule_format] st fr] w1 w2 pc
  show ?thesis by auto
qed


lemma find_anchor_Some:
  assumes "find_anchor anchors nodes = Some (a, following)"
  shows "\<exists>pre. nodes = pre @ a # following"
proof (cases "find_string (contains (str ''Detailed Results by Constituency'')) nodes")
  case None
  with assms have "find_string (contains (str ''Constituency Results'')) nodes = Some (a, following)"
    by (simp add: find_anchor_anchors)
  from find_string_Some [OF this] show ?thesis by blast
next
  case (Some x)
  with assms have "find_string (contains (str ''Detailed Results by Constituency'')) nodes = Some (a, following)"
    by (simp add: find_anchor_anchors)
  from find_string_Some [OF this] show ?thesis by blast
qed

lemma parse_rows_from:
  assumes "parse_rows (Inr nodes) = Inr rows" and "r \<in> set rows"
  shows "\<exists>n\<in>set nodes. has_status (strip n) \<and> 8 \<le> length (fragments (strip n)) \<and>
           make_row (fragments (strip n)) = Inr r"
proof (cases "find_anchor anchors nodes")
  case None
  with assms show ?thesis by (simp add: parse_rows_def)
next
  case (Some x)
  obtain a following where x: "x = (a, following)" by (cases x)
  with Some have fa: "find_anchor anchors nodes = Some (a, following)" by simp
  then have "walk [] following = Inr rows" using assms(1) by (simp add: parse_rows_found)
  from walk_from [OF this assms(2)]
  obtain n where n: "n \<in> set following" "has_status (strip n)" "8 \<le> length (fragments (strip n))"
      "make_row (fragments (strip n)) = Inr r"
    by auto
  from find_anchor_Some [OF fa] n(1) have "n \<in> set nodes" by auto
  with n show ?thesis by blast
qed

text \<open>
  C9: every row the parser returns is built from the fragments of one text node, at least
  eight of them and none empty: its keys are the eight fields in their order, every value
  but that of percent is a non-empty string, and the value of percent is the sixth fragment
  without its "%" (code point 37), empty exactly when that fragment holds nothing else.
  The document given has such a row.
\<close>

theorem parse_rows_row_shape:
  "(\<forall>nodes rows r. parse_rows (Inr nodes) = Inr rows \<longrightarrow> r \<in> set rows \<longrightarrow>
      (\<exists>n parts. n \<in> set nodes \<and> parts = fragments (strip n) \<and> 8 \<le> length parts \<and>
         (\<forall>p\<in>set parts. p \<noteq> []) \<and>
         map fst r = FIELDS \<and>
         (\<forall>k v. (k, v) \<in> set r \<longrightarrow> k \<noteq> str ''percent'' \<longrightarrow> v \<noteq> []) \<and>
         map_of r (str ''percent'') = Some (filter (\<lambda>c. c \<noteq> 37) (parts ! 5)) \<and>
         (map_of r (str ''percent'') = Some [] \<longleftrightarrow> set (parts ! 5) \<subseteq> {37}))) \<and>
   parse_rows (Inr [str ''Constituency Results'', str ''A  B  C  D  1  %%  Declared  3'']) =
     Inr [[(str ''constituency'', str ''A''), (str ''parish'', str ''B''),
           (str ''candidate'', str ''C''), (str ''party'', str ''D''), (str ''votes'', str ''1''),
           (str ''percent'', []), (str ''status'', str ''Declared''), (str ''boxes'', str ''3'')]]"
proof (intro conjI allI impI)
  fix nodes rows r
  assume pr: "parse_rows (Inr nodes) = Inr rows" and r: "r \<in> set rows"
  from parse_rows_from [OF pr r]
  obtain n where n: "n \<in> set nodes" "8 \<le> length (fragments (strip n))"
      "make_row (fragments (strip n)) = Inr r"
    by auto
  define parts where "parts = fragments (strip n)"
  have len: "8 \<le> length parts" using n(2) by (simp add: parts_def)
  have ne: "\<forall>p\<in>set parts. p \<noteq> []" by (simp add: parts_def fragments_def)
  have req: "r = [(str ''constituency'', parts ! 0), (str ''parish'', parts ! 1),
          (str ''candidate'', parts ! 2), (str ''party'', parts ! 3),
          (str ''votes'', parts ! 4), (str ''percent'', remove_percent (parts ! 5)),
          (str ''status'', parts ! 6), (str ''boxes'', parts ! 7)]"
    using make_row_ok [OF len] n(3) by (simp add: parts_def)
  have mem: "parts ! i \<noteq> []" if "i < 8" for i
    using ne len that by (simp add: nth_mem)
  have keys: "map fst r = FIELDS" by (simp add: req FIELDS_def)
  have vals: "\<forall>k v. (k, v) \<in> set r \<longrightarrow> k \<noteq> str ''percent'' \<longrightarrow> v \<noteq> []"
    using mem [of 0] mem [of 1] mem [of 2] mem [of 3] mem [of 4] mem [of 6] mem [of 7]
    by (auto simp: req)
  have pc: "map_of r (str ''percent'') = Some (filter (\<lambda>c. c \<noteq> 37) (parts ! 5))"
    by (simp add: req str_def remove_percent_def)
  have pe: "map_of r (str ''percent'') = Some [] \<longleftrightarrow> set (parts ! 5) \<subseteq> {37}"
    unfolding pc by (auto simp: filter_empty_conv)
  from n(1) len ne keys vals pc pe
  show "\<exists>n parts. n \<in> set nodes \<and> parts = fragments (strip n) \<and> 8 \<le> length parts \<and>
         (\<forall>p\<in>set parts. p \<noteq> []) \<and>
         map fst r = FIELDS \<and>
         (\<forall>k v. (k, v) \<in> set r \<longrightarrow> k \<noteq> str ''percent'' \<longrightarrow> v \<noteq> []) \<and>
         map_of r (str ''percent'') = Some (filter (\<lambda>c. c \<noteq> 37) (parts ! 5)) \<and>
         (map_of r (str ''percent'') = Some [] \<longleftrightarrow> set (parts ! 5) \<subseteq> {37})"
    unfolding parts_def by blast
next
  show "parse_rows (Inr [str ''Constituency Results'', str ''A  B  C  D  1  %%  Declared  3'']) =
     Inr [[(str ''constituency'', str ''A''), (str ''parish'', str ''B''),
           (str ''candidate'', str ''C''), (str ''party'', str ''D''), (str ''votes'', str ''1''),
           (str ''percent'', []), (str ''status'', str ''Declared''), (str ''boxes'', str ''3'')]]"
    by (simp add: parse_rows_def anchors_def str_def strip_def isspace_def has_stop_def
        has_status_def stop_markers_def status_tokens_def fragments_def make_row_def
        remove_percent_def getitem_def bind_def)
qed

text \<open>
  The witness takes the general part at the row of the example: its keys are the eight
  fields and its percent is the empty string.
\<close>

theorem parse_rows_row_shape_witness:
  "map fst [(str ''constituency'', str ''A''), (str ''parish'', str ''B''),
           (str ''candidate'', str ''C''), (str ''party'', str ''D''), (str ''votes'', str ''1''),
           (str ''percent'', []), (str ''status'', str ''Declared''), (str ''boxes'', str ''3'')] = FIELDS \<and>
   (\<exists>n\<in>set [str ''Constituency Results'', str ''A  B  C  D  1  %%  Declared  3''].
      set (fragments (strip n) ! 5) \<subseteq> {37})"
proof -
  let ?r = "[(str ''constituency'', str ''A''), (str ''parish'', str ''B''),
           (str ''candidate'', str ''C''), (str ''party'', str ''D''), (str ''votes'', str ''1''),
           (str ''percent'', []), (str ''status'', str ''Declared''), (str ''boxes'', str ''3'')]"
  let ?nodes = "[str ''Constituency Results'', str ''A  B  C  D  1  %%  Declared  3'']"
  have pr: "parse_rows (Inr ?nodes) = Inr [?r]"
    using parse_rows_row_shape by blast
  have r: "?r \<in> set [?r]" by simp
  have m: "map_of ?r (str ''percent'') = Some []" by (simp add: str_def)
  from parse_rows_row_shape [THEN conjunct1, rule_format, OF pr r]
  obtain n parts where "n \<in> set ?nodes" "parts = fragments (strip n)" "map fst ?r = FIELDS"
      "map_of ?r (str ''percent'') = Some [] \<longleftrightarrow> set (parts ! 5) \<subseteq> {37}"
    by blast
  with m show ?thesis by blast
qed

text \<open>
  C10: a text node after the anchor (no stop marker up to it) is a data row as soon as a
  status token occurs anywhere in its trimmed text and it has at least eight fragments;
  the row holds the first eight fragments by position, so its status is the seventh
  fragment, whatever that is. In the document given the token is in the first fragment
  and the status of the row is "pending", which contains no status token.
\<close>

theorem parse_rows_positional:
  "(\<forall>nodes a before n later.
      find_anchor anchors nodes = Some (a, before @ n # later) \<longrightarrow>
      (\<forall>m\<in>set (before @ [n]). \<not> has_stop m) \<longrightarrow>
      has_status (strip n) \<longrightarrow>
      8 \<le> length (fragments (strip n)) \<longrightarrow>
      (\<exists>rs1 rs2. walk [] before = Inr rs1 \<and> walk [] later = Inr rs2 \<and>
         parse_rows (Inr nodes) =
           Inr (rs1 @ [[(str ''constituency'', fragments (strip n) ! 0),
                        (str ''parish'', fragments (strip n) ! 1),
                        (str ''candidate'', fragments (strip n) ! 2),
                        (str ''party'', fragments (strip n) ! 3),
                        (str ''votes'', fragments (strip n) ! 4),
                        (str ''percent'', filter (\<lambda>c. c \<noteq> 37) (fragments (strip n) ! 5)),
                        (str ''status'', fragments (strip n) ! 6),
                        (str ''boxes'', fragments (strip n) ! 7)]] @ rs2))) \<and>
   parse_rows (Inr [str ''Constituency Results'',
                    str ''Declared  B  C  D  1  2  pending  3  extra'']) =
     Inr [[(str ''constituency'', str ''Declared''), (str ''parish'', str ''B''),
           (str ''candidate'', str ''C''), (str ''party'', str ''D''), (str ''votes'', str ''1''),
           (str ''percent'', str ''2''), (str ''status'', str ''pending''), (str ''boxes'', str ''3'')]] \<and>
   \<not> has_status (str ''pending'')"
proof (intro conjI allI impI)
  fix nodes a before n later
  assume fa: "find_anchor anchors nodes = Some (a, before @ n # later)"
    and ns: "\<forall>m\<in>set (before @ [n]). \<not> has_stop m"
    and st: "has_status (strip n)"
    and len: "8 \<le> length (fragments (strip n))"
  have mr: "make_row (fragments (strip n)) =
      Inr [(str ''constituency'', fragments (strip n) ! 0),
           (str ''parish'', fragments (strip n) ! 1),
           (str ''candidate'', fragments (strip n) ! 2),
           (str ''party'', fragments (strip n) ! 3),
           (str ''votes'', fragments (strip n) ! 4),
           (str ''percent'', filter (\<lambda>c. c \<noteq> 37) (fragments (strip n) ! 5)),
           (str ''status'', fragments (strip n) ! 6),
           (str ''boxes'', fragments (strip n) ! 7)]"
    using make_row_ok [OF len] by (simp add: remove_percent_def)
  from ns have ns1: "\<forall>m\<in>set before. \<not> has_stop m" and ns2: "\<not> has_stop n" by simp_all
  from walk_emit_mid [OF ns1 ns2 st len mr, of later] parse_rows_found [OF fa]
  show "\<exists>rs1 rs2. walk [] before = Inr rs1 \<and> walk [] later = Inr rs2 \<and>
         parse_rows (Inr nodes) =
           Inr (rs1 @ [[(str ''constituency'', fragments (strip n) ! 0),
                        (str ''parish'', fragments (strip n) ! 1),
                        (str ''candidate'', fragments (strip n) ! 2),
                        (str ''party'', fragments (strip n) ! 3),
                        (str ''votes'', fragments (strip n) ! 4),
                        (str ''percent'', filter (\<lambda>c. c \<noteq> 37) (fragments (strip n) ! 5)),
                        (str ''status'', fragments (strip n) ! 6),
                        (str ''boxes'', fragments (strip n) ! 7)]] @ rs2)"
    by simp
next
  show "parse_rows (Inr [str ''Constituency Results'',
                    str ''Declared  B  C  D  1  2  pending  3  extra'']) =
     Inr [[(str ''constituency'', str ''Declared''), (str ''parish'', str ''B''),
           (str ''candidate'', str ''C''), (str ''party'', str ''D''), (str ''votes'', str ''1''),
           (str ''percent'', str ''2''), (str ''status'', str ''pending''), (str ''boxes'', str ''3'')]]"
    by (simp add: parse_rows_def anchors_def str_def strip_def isspace_def has_stop_def
        has_status_def stop_markers_def status_tokens_def fragments_def make_row_def
        remove_percent_def getitem_def bind_def)
next
  show "\<not> has_status (str ''pending'')"
    by (simp add: has_status_def status_tokens_def str_def)
qed

text \<open>
  The witness takes the general part at a node whose token sits inside the third
  fragment and whose seventh fragment is "n/a".
\<close>

theorem parse_rows_positional_witness:
  "parse_rows (Inr [str ''Detailed Results by Constituency'',
                    str ''A  B  Still Counting here  D  1  2  n/a  3  4  5'']) =
   Inr [[(str ''constituency'', str ''A''), (str ''parish'', str ''B''),
         (str ''candidate'', str ''Still Counting here''), (str ''party'', str ''D''),
         (str ''votes'', str ''1''), (str ''percent'', str ''2''), (str ''status'', str ''n/a''),
         (str ''boxes'', str ''3'')]]"
proof -
  let ?n = "str ''A  B  Still Counting here  D  1  2  n/a  3  4  5''"
  have fa: "find_anchor anchors [str ''Detailed Results by Constituency'', ?n] =
        Some (str ''Detailed Results by Constituency'', [] @ ?n # [])"
    by (simp add: anchors_def str_def)
  have ns: "\<forall>m\<in>set ([] @ [?n]). \<not> has_stop m"
    by (simp add: has_stop_def stop_markers_def str_def)
  have st: "has_status (strip ?n)"
    by (simp add: has_status_strip) (simp add: has_status_def status_tokens_def str_def)
  have fr: "fragments (strip ?n) =
      [str ''A'', str ''B'', str ''Still Counting here'', str ''D'', str ''1'', str ''2'',
       str ''n/a'', str ''3'', str ''4'', str ''5'']"
    by (simp add: str_def strip_def isspace_def fragments_def)
  then have len: "8 \<le> length (fragments (strip ?n))" by simp
  from parse_rows_positional [THEN conjunct1, rule_format, OF fa ns [rule_format] st len]
  show ?thesis unfolding fr by (simp add: str_def)
qed


section \<open>Facts about the writer\<close>

lemma dict_get_comprehension:
  "k \<in> set ks \<Longrightarrow> dict_get (map (\<lambda>k. (k, f k)) ks) k d = f k"
  by (simp add: dict_get_def map_of_map_restrict)

lemma join_fields_FIELDS:
  "join_fields FIELDS = str ''constituency,parish,candidate,party,votes,percent,status,boxes''"
  by (simp add: FIELDS_def str_def csv_field_def needs_quote_def)

lemma writeheader_FIELDS: "DictWriter_writeheader FIELDS = Inr (join_fields FIELDS @ [13, 10])"
proof -
  have "map (\<lambda>key. dict_get (zip FIELDS FIELDS) key []) FIELDS = FIELDS"
    by (simp add: FIELDS_def dict_get_def str_def)
  moreover have "list_all (\<lambda>k. k \<in> set FIELDS) (map fst (zip FIELDS FIELDS))"
    by (simp add: FIELDS_def)
  moreover have "FIELDS \<noteq> [[]]" by (simp add: FIELDS_def)
  ultimately show ?thesis
    by (simp add: DictWriter_writeheader_def DictWriter_writerow_def csv_writerow_def)
qed

text \<open>The dict written for a row has exactly the field names as keys, so no row is refused.\<close>

lemma writerow_FIELDS:
  "DictWriter_writerow FIELDS (map (\<lambda>k. (k, dict_get r k [])) FIELDS) =
     Inr (join_fields (map (\<lambda>k. dict_get r k []) FIELDS) @ [13, 10])"
proof -
  have eq: "map (\<lambda>key. dict_get (map (\<lambda>k. (k, dict_get r k [])) FIELDS) key []) FIELDS =
        map (\<lambda>k. dict_get r k []) FIELDS"
    by (rule map_cong) (simp_all add: dict_get_comprehension)
  have keys: "list_all (\<lambda>k. k \<in> set FIELDS) (map fst (map (\<lambda>k. (k, dict_get r k [])) FIELDS))"
    by (simp add: list_all_iff)
  have ne: "map (\<lambda>k. dict_get r k []) FIELDS \<noteq> [[]]" by (simp add: FIELDS_def)
  show ?thesis
    unfolding DictWriter_writerow_def csv_writerow_def eq using keys ne by simp
qed

lemma write_rows_eq:
  "write_rows f rows =
     Inr (f @ concat (map (\<lambda>r. join_fields (map (\<lambda>k. dict_get r k []) FIELDS) @ [13, 10]) rows))"
  by (induction rows arbitrary: f) (simp_all add: writerow_FIELDS)

lemma write_artifacts_eq:
  "write_artifacts rows ts =
     Inr \<lparr>results_json = JObject [(str ''source'', JString URL), (str ''fetched_at'', JString ts),
                                   (str ''rows'', JArray (map json_row rows))],
          results_csv = join_fields FIELDS @ [13, 10] @
            concat (map (\<lambda>r. join_fields (map (\<lambda>k. dict_get r k []) FIELDS) @ [13, 10]) rows),
          stdout = str ''Saved '' @ str_of_nat (length rows) @ str '' rows at '' @ ts,
          returned = 0\<rparr>"
  by (simp add: write_artifacts_def writeheader_FIELDS write_rows_eq)

section \<open>The artifacts: claims\<close>

text \<open>
  C7: for every sequence of rows the table starts with the header line of the eight field
  names in their order, and has one line for each row after it: the values of the eight
  fields in that order, the empty string where the row has no such key, which is written
  as nothing between the delimiters. For the empty sequence the table is the header line
  alone and the payload has \<open>rows: []\<close>. Code point 44 is the comma, 13 and 10 end a line.
\<close>

theorem write_artifacts_table:
  "(\<exists>out. write_artifacts rows ts = Inr out \<and>
      results_csv out =
        str ''constituency,parish,candidate,party,votes,percent,status,boxes'' @ [13, 10] @
        concat (map (\<lambda>r. join_fields (map (\<lambda>k. case map_of r k of None \<Rightarrow> [] | Some v \<Rightarrow> v) FIELDS)
                        @ [13, 10]) rows)) \<and>
   csv_field [] = [] \<and>
   write_artifacts [] ts =
     Inr \<lparr>results_json = JObject [(str ''source'', JString URL), (str ''fetched_at'', JString ts),
                                   (str ''rows'', JArray [])],
          results_csv = str ''constituency,parish,candidate,party,votes,percent,status,boxes'' @ [13, 10],
          stdout = str ''Saved 0 rows at '' @ ts,
          returned = 0\<rparr>"
proof (intro conjI)
  have "(\<lambda>k. dict_get r k []) = (\<lambda>k. case map_of r k of None \<Rightarrow> [] | Some v \<Rightarrow> v)" for r
    by (simp add: dict_get_def)
  then show "\<exists>out. write_artifacts rows ts = Inr out \<and>
      results_csv out =
        str ''constituency,parish,candidate,party,votes,percent,status,boxes'' @ [13, 10] @
        concat (map (\<lambda>r. join_fields (map (\<lambda>k. case map_of r k of None \<Rightarrow> [] | Some v \<Rightarrow> v) FIELDS)
                        @ [13, 10]) rows)"
    by (simp add: write_artifacts_eq join_fields_FIELDS)
next
  show "csv_field [] = []" by (simp add: csv_field_def)
next
  have "str_of_nat 0 = str ''0''" by (simp add: str_of_nat.simps str_def)
  then show "write_artifacts [] ts =
     Inr \<lparr>results_json = JObject [(str ''source'', JString URL), (str ''fetched_at'', JString ts),
                                   (str ''rows'', JArray [])],
          results_csv = str ''constituency,parish,candidate,party,votes,percent,status,boxes'' @ [13, 10],
          stdout = str ''Saved 0 rows at '' @ ts,
          returned = 0\<rparr>"
    by (simp add: write_artifacts_eq join_fields_FIELDS str_def)
qed

text \<open>
  The witness is a row with the two keys votes and party only, the first value with a
  comma: six cells are empty and the value with the comma is quoted (code point 34).
\<close>

theorem write_artifacts_table_witness:
  "\<exists>out. write_artifacts [[(str ''votes'', str ''1,2''), (str ''party'', str ''PNP'')]] (str ''T'') = Inr out \<and>
     results_csv out =
       str ''constituency,parish,candidate,party,votes,percent,status,boxes'' @ [13, 10] @
       str '',,,PNP,'' @ [34] @ str ''1,2'' @ [34] @ str '',,,'' @ [13, 10]"
proof -
  have "join_fields (map (\<lambda>k. case map_of [(str ''votes'', str ''1,2''), (str ''party'', str ''PNP'')] k of
                              None \<Rightarrow> [] | Some v \<Rightarrow> v) FIELDS) =
        str '',,,PNP,'' @ [34] @ str ''1,2'' @ [34] @ str '',,,''"
    by (simp add: FIELDS_def str_def csv_field_def needs_quote_def csv_escape_def)
  with write_artifacts_table [THEN conjunct1,
      of "[[(str ''votes'', str ''1,2''), (str ''party'', str ''PNP'')]]" "str ''T''"]
  show ?thesis by simp
qed


section \<open>The run: claims\<close>

lemma failure_eq:
  "failure (Exception msg) ts =
     Inr \<lparr>results_json = JObject [(str ''source'', JString URL), (str ''fetched_at'', JString ts),
                                   (str ''rows'', JArray []), (str ''error'', JString msg)],
          results_csv = str ''constituency,parish,candidate,party,votes,percent,status,boxes'' @ [13, 10],
          stdout = str ''Error: '' @ msg,
          returned = 0\<rparr>"
  by (simp add: failure_def writeheader_FIELDS join_fields_FIELDS)

text \<open>
  C2, as the code has it: when the fetch or the parse raises an exception with the text
  \<open>msg\<close>, the run writes the payload with \<open>rows: []\<close> and \<open>error: msg\<close>, writes the header
  line alone to the table, prints the error and ends with exit status 0. The error text
  is \<open>str(e)\<close> as it is; nothing makes it non-empty.
\<close>

theorem main_failure:
  assumes "fetch_html got = Inl (Exception msg) \<or>
           (\<exists>html. fetch_html got = Inr html \<and> parse_rows soup = Inl (Exception msg))"
  shows "main got soup ts =
           Inr \<lparr>results_json = JObject [(str ''source'', JString URL), (str ''fetched_at'', JString ts),
                                         (str ''rows'', JArray []), (str ''error'', JString msg)],
                results_csv = str ''constituency,parish,candidate,party,votes,percent,status,boxes'' @ [13, 10],
                stdout = str ''Error: '' @ msg,
                returned = 0\<rparr> \<and>
         exit_status (main got soup ts) = 0"
proof -
  from assms have "main got soup ts = failure (Exception msg) ts"
    by (auto simp: main_def)
  then show ?thesis by (simp add: failure_eq exit_status_def)
qed

text \<open>
  The witness: a fetch that times out, and a fetch that returns with status 200 followed by
  a parser that raises.
\<close>

theorem main_failure_witness:
  "main (Inl (Exception (str ''Read timed out.''))) (Inr []) (str ''2025-09-03T12:00:00Z'') =
     Inr \<lparr>results_json = JObject [(str ''source'', JString URL),
                                   (str ''fetched_at'', JString (str ''2025-09-03T12:00:00Z'')),
                                   (str ''rows'', JArray []),
                                   (str ''error'', JString (str ''Read timed out.''))],
          results_csv = str ''constituency,parish,candidate,party,votes,percent,status,boxes'' @ [13, 10],
          stdout = str ''Error: '' @ str ''Read timed out.'',
          returned = 0\<rparr> \<and>
   exit_status (main (Inr \<lparr>status_code = 200, reason = str ''OK'', url = URL, resp_text = str ''<html>''\<rparr>)
                     (Inl (Exception (str ''no tree builder''))) (str ''2025-09-03T12:00:00Z'')) = 0"
proof -
  have a: "fetch_html (Inl (Exception (str ''Read timed out.''))) = Inl (Exception (str ''Read timed out.''))"
    by (simp add: fetch_html_def)
  have b: "fetch_html (Inr \<lparr>status_code = 200, reason = str ''OK'', url = URL, resp_text = str ''<html>''\<rparr>) =
             Inr (str ''<html>'')"
    by (simp add: fetch_html_def raise_for_status_def)
  have c: "parse_rows (Inl (Exception (str ''no tree builder''))) = Inl (Exception (str ''no tree builder''))"
    by (simp add: parse_rows_def)
  from a have "fetch_html (Inl (Exception (str ''Read timed out.''))) = Inl (Exception (str ''Read timed out.'')) \<or>
      (\<exists>html. fetch_html (Inl (Exception (str ''Read timed out.''))) = Inr html \<and>
               parse_rows (Inr []) = Inl (Exception (str ''Read timed out.'')))"
    by simp
  note w1 = main_failure [OF this, of "str ''2025-09-03T12:00:00Z''"]
  from b c have "fetch_html (Inr \<lparr>status_code = 200, reason = str ''OK'', url = URL, resp_text = str ''<html>''\<rparr>) =
        Inl (Exception (str ''no tree builder'')) \<or>
      (\<exists>html. fetch_html (Inr \<lparr>status_code = 200, reason = str ''OK'', url = URL, resp_text = str ''<html>''\<rparr>) = Inr html \<and>
               parse_rows (Inl (Exception (str ''no tree builder''))) = Inl (Exception (str ''no tree builder'')))"
    by simp
  note w2 = main_failure [OF this, of "str ''2025-09-03T12:00:00Z''"]
  from w1 w2 show ?thesis by blast
qed

text \<open>
  The claim as the specification words it asks for a non-empty error text after any
  exception. An exception whose \<open>str(e)\<close> is empty gives the empty error text.
\<close>

theorem main_failure_empty_message:
  "fetch_html (Inl (Exception [])) = Inl (Exception []) \<and>
   main (Inl (Exception [])) (Inr []) (str ''2025-09-03T12:00:00Z'') =
     Inr \<lparr>results_json = JObject [(str ''source'', JString URL),
                                   (str ''fetched_at'', JString (str ''2025-09-03T12:00:00Z'')),
                                   (str ''rows'', JArray []),
                                   (str ''error'', JString [])],
          results_csv = str ''constituency,parish,candidate,party,votes,percent,status,boxes'' @ [13, 10],
          stdout = str ''Error: '',
          returned = 0\<rparr>"
  by (simp add: main_def fetch_html_def failure_eq)


section \<open>Facts about the reader\<close>

lemma line_ends_plain: "c \<noteq> 10 \<Longrightarrow> c \<noteq> 13 \<Longrightarrow> \<not> line_ends c s"
  by (simp add: line_ends_def)

text \<open>The characters of an unquoted field are added one by one.\<close>

lemma read_unquoted:
  assumes "\<forall>c\<in>set f. \<not> needs_quote c" and "state rd = IN_FIELD"
  shows "csv_reader rd pending (f @ s) = csv_reader (rd\<lparr>field := field rd @ f\<rparr>) (pending \<or> f \<noteq> []) s"
  using assms
proof (induction f arbitrary: rd pending)
  case Nil
  then show ?case by simp
next
  case (Cons c f)
  from Cons.prems have c: "c \<noteq> 44" "c \<noteq> 34" "c \<noteq> 13" "c \<noteq> 10"
    by (simp_all add: needs_quote_def)
  have step: "parse_process_char rd (Some c) = Inr (parse_add_char rd c)"
    using c Cons.prems(2) by (simp add: is_newline_def)
  have st: "state (parse_add_char rd c) = IN_FIELD"
    using Cons.prems(2) by (simp add: parse_add_char_def)
  have "csv_reader rd pending ((c # f) @ s) = csv_reader (parse_add_char rd c) True (f @ s)"
    using step line_ends_plain [OF c(4) c(3)] by simp
  also have "\<dots> = csv_reader ((parse_add_char rd c)\<lparr>field := field (parse_add_char rd c) @ f\<rparr>) True s"
    using Cons.IH [OF _ st, of True] Cons.prems(1) by simp
  finally show ?case by (simp add: parse_add_char_def)
qed

lemma read_unquoted_start:
  assumes "\<forall>c\<in>set f. \<not> needs_quote c" and "f \<noteq> []"
    and "state rd = START_RECORD \<or> state rd = START_FIELD"
  shows "csv_reader rd pending (f @ s) = csv_reader (rd\<lparr>state := IN_FIELD, field := field rd @ f\<rparr>) True s"
proof -
  from assms(2) obtain c f' where f: "f = c # f'" by (cases f) auto
  with assms(1) have c: "c \<noteq> 44" "c \<noteq> 34" "c \<noteq> 13" "c \<noteq> 10" and f': "\<forall>c\<in>set f'. \<not> needs_quote c"
    by (simp_all add: needs_quote_def)
  let ?rd1 = "(parse_add_char rd c)\<lparr>state := IN_FIELD\<rparr>"
  have step: "parse_process_char rd (Some c) = Inr ?rd1"
    using c assms(3) by (auto simp: is_newline_def start_field_def)
  have "csv_reader rd pending (f @ s) = csv_reader ?rd1 True (f' @ s)"
    using step line_ends_plain [OF c(4) c(3)] by (simp add: f)
  also have "\<dots> = csv_reader (?rd1\<lparr>field := field ?rd1 @ f'\<rparr>) (True \<or> f' \<noteq> []) s"
    using f' by (rule read_unquoted) simp
  finally show ?thesis by (simp add: parse_add_char_def f)
qed

text \<open>
  Inside the quotes every character of the field is read back, a doubled quote as one
  quote; line ends inside the quotes leave the record open.
\<close>

lemma read_quoted:
  assumes "state rd = IN_QUOTED_FIELD"
  shows "csv_reader rd pending (csv_escape f @ 34 # s) =
         csv_reader (rd\<lparr>state := QUOTE_IN_QUOTED_FIELD, field := field rd @ f\<rparr>) True s"
  using assms
proof (induction f arbitrary: rd pending)
  case Nil
  have "parse_process_char rd (Some 34) = Inr (rd\<lparr>state := QUOTE_IN_QUOTED_FIELD\<rparr>)"
    using Nil by simp
  then show ?case by (simp add: csv_escape_def line_ends_def)
next
  case (Cons c f)
  show ?case
  proof (cases "c = 34")
    case True
    let ?rd1 = "rd\<lparr>state := QUOTE_IN_QUOTED_FIELD\<rparr>"
    let ?rd2 = "(parse_add_char ?rd1 34)\<lparr>state := IN_QUOTED_FIELD\<rparr>"
    have s1: "parse_process_char rd (Some 34) = Inr ?rd1" using Cons.prems by simp
    have s2: "parse_process_char ?rd1 (Some 34) = Inr ?rd2" by simp
    have st: "state ?rd2 = IN_QUOTED_FIELD" by simp
    have "csv_reader rd pending (csv_escape (c # f) @ 34 # s) =
          csv_reader rd pending (34 # 34 # csv_escape f @ 34 # s)"
      using True by (simp add: csv_escape_def)
    also have "\<dots> = csv_reader ?rd1 True (34 # csv_escape f @ 34 # s)"
      using s1 by (simp add: line_ends_def del: parse_process_char.simps)
    also have "\<dots> = csv_reader ?rd2 True (csv_escape f @ 34 # s)"
      using s2 by (simp add: line_ends_def del: parse_process_char.simps)
    also have "\<dots> = csv_reader (?rd2\<lparr>state := QUOTE_IN_QUOTED_FIELD, field := field ?rd2 @ f\<rparr>) True s"
      using st by (rule Cons.IH)
    finally show ?thesis using True by (simp add: parse_add_char_def)
  next
    case False
    let ?rd1 = "parse_add_char rd c"
    have s1: "parse_process_char rd (Some c) = Inr ?rd1" using Cons.prems False by simp
    have st: "state ?rd1 = IN_QUOTED_FIELD" using Cons.prems by (simp add: parse_add_char_def)
    have s2: "parse_process_char ?rd1 None = Inr ?rd1" using st by simp
    have ih: "csv_reader ?rd1 p (csv_escape f @ 34 # s) =
              csv_reader (?rd1\<lparr>state := QUOTE_IN_QUOTED_FIELD, field := field ?rd1 @ f\<rparr>) True s" for p
      using st by (rule Cons.IH)
    have "csv_reader rd pending (csv_escape (c # f) @ 34 # s) =
          csv_reader rd pending (c # csv_escape f @ 34 # s)"
      using False by (simp add: csv_escape_def)
    also have "\<dots> = csv_reader (?rd1\<lparr>state := QUOTE_IN_QUOTED_FIELD, field := field ?rd1 @ f\<rparr>) True s"
      using s1 s2 st ih [of True] ih [of False]
      by (simp del: parse_process_char.simps)
    finally show ?thesis by (simp add: parse_add_char_def)
  qed
qed

text \<open>A field as written, followed by the delimiter, is read back as that field.\<close>

lemma read_field_comma:
  assumes "state rd = START_RECORD \<or> state rd = START_FIELD" and "field rd = []"
  shows "csv_reader rd pending (csv_field f @ 44 # s) =
         csv_reader \<lparr>state = START_FIELD, field = [], fieldlist = fieldlist rd @ [f]\<rparr> True s"
proof (cases "list_ex needs_quote f")
  case True
  let ?rd1 = "rd\<lparr>state := IN_QUOTED_FIELD\<rparr>"
  let ?rd2 = "?rd1\<lparr>state := QUOTE_IN_QUOTED_FIELD, field := field ?rd1 @ f\<rparr>"
  have s1: "parse_process_char rd (Some 34) = Inr ?rd1"
    using assms(1) by (auto simp: is_newline_def start_field_def)
  have s3: "parse_process_char ?rd2 (Some 44) =
            Inr \<lparr>state = START_FIELD, field = [], fieldlist = fieldlist rd @ [f]\<rparr>"
    using assms(2) by (simp add: parse_save_field_def)
  have "csv_reader rd pending (csv_field f @ 44 # s) =
        csv_reader rd pending (34 # csv_escape f @ 34 # 44 # s)"
    using True by (simp add: csv_field_def)
  also have "\<dots> = csv_reader ?rd1 True (csv_escape f @ 34 # 44 # s)"
    using s1 by (simp add: line_ends_def del: parse_process_char.simps)
  also have "\<dots> = csv_reader ?rd2 True (44 # s)"
    by (rule read_quoted) simp
  also have "\<dots> = csv_reader \<lparr>state = START_FIELD, field = [], fieldlist = fieldlist rd @ [f]\<rparr> True s"
    using s3 by (simp add: line_ends_def del: parse_process_char.simps)
  finally show ?thesis .
next
  case False
  then have plain: "\<forall>c\<in>set f. \<not> needs_quote c" by (simp add: list_ex_iff)
  have cf: "csv_field f = f" using False by (simp add: csv_field_def)
  show ?thesis
  proof (cases "f = []")
    case True
    have "parse_process_char rd (Some 44) =
          Inr \<lparr>state = START_FIELD, field = [], fieldlist = fieldlist rd @ [[]]\<rparr>"
      using assms by (auto simp: is_newline_def start_field_def parse_save_field_def)
    then show ?thesis
      using True cf by (simp add: line_ends_def del: parse_process_char.simps)
  next
    case ne: False
    let ?rd1 = "rd\<lparr>state := IN_FIELD, field := field rd @ f\<rparr>"
    have s2: "parse_process_char ?rd1 (Some 44) =
              Inr \<lparr>state = START_FIELD, field = [], fieldlist = fieldlist rd @ [f]\<rparr>"
      using assms(2) by (simp add: is_newline_def parse_save_field_def)
    have "csv_reader rd pending (csv_field f @ 44 # s) = csv_reader ?rd1 True (44 # s)"
      unfolding cf using plain ne assms(1) by (rule read_unquoted_start)
    also have "\<dots> = csv_reader \<lparr>state = START_FIELD, field = [], fieldlist = fieldlist rd @ [f]\<rparr> True s"
      using s2 by (simp add: line_ends_def del: parse_process_char.simps)
    finally show ?thesis .
  qed
qed

text \<open>The state after a field as written, before the character that follows it.\<close>

lemma read_field_crlf:
  assumes "state rd = START_FIELD" and "field rd = []"
  shows "csv_reader rd pending (csv_field f @ 13 # 10 # s) =
         (case csv_reader parse_reset False s of
            Inl e \<Rightarrow> Inl e
          | Inr recs \<Rightarrow> Inr ((fieldlist rd @ [f]) # recs))"
proof -
  let ?done = "\<lparr>state = EAT_CRNL, field = [], fieldlist = fieldlist rd @ [f]\<rparr>"
  have eol: "csv_reader ?done True (10 # s) =
         (case csv_reader parse_reset False s of
            Inl e \<Rightarrow> Inl e
          | Inr recs \<Rightarrow> Inr ((fieldlist rd @ [f]) # recs))"
    by (simp add: is_newline_def line_ends_def cong: sum.case_cong)
  have cr: "csv_reader rd' p (13 # 10 # s) = csv_reader ?done True (10 # s)"
    if "parse_process_char rd' (Some 13) = Inr ?done" for rd' p
    using that by (simp add: line_ends_def del: parse_process_char.simps)
  show ?thesis
  proof (cases "list_ex needs_quote f")
    case True
    let ?rd1 = "rd\<lparr>state := IN_QUOTED_FIELD\<rparr>"
    let ?rd2 = "?rd1\<lparr>state := QUOTE_IN_QUOTED_FIELD, field := field ?rd1 @ f\<rparr>"
    have s1: "parse_process_char rd (Some 34) = Inr ?rd1"
      using assms(1) by (auto simp: is_newline_def start_field_def)
    have s3: "parse_process_char ?rd2 (Some 13) = Inr ?done"
      using assms(2) by (simp add: parse_save_field_def is_newline_def after_newline_def)
    have "csv_reader rd pending (csv_field f @ 13 # 10 # s) =
          csv_reader rd pending (34 # csv_escape f @ 34 # 13 # 10 # s)"
      using True by (simp add: csv_field_def)
    also have "\<dots> = csv_reader ?rd1 True (csv_escape f @ 34 # 13 # 10 # s)"
      using s1 by (simp add: line_ends_def del: parse_process_char.simps)
    also have "\<dots> = csv_reader ?rd2 True (13 # 10 # s)"
      by (rule read_quoted) simp
    also have "\<dots> = csv_reader ?done True (10 # s)"
      using s3 by (rule cr)
    finally show ?thesis using eol by simp
  next
    case False
    then have plain: "\<forall>c\<in>set f. \<not> needs_quote c" by (simp add: list_ex_iff)
    have cf: "csv_field f = f" using False by (simp add: csv_field_def)
    show ?thesis
    proof (cases "f = []")
      case True
      have "parse_process_char rd (Some 13) = Inr ?done"
        using assms True
        by (simp add: is_newline_def start_field_def parse_save_field_def after_newline_def)
      then have "csv_reader rd pending (13 # 10 # s) = csv_reader ?done True (10 # s)"
        by (rule cr)
      then show ?thesis using True cf eol by simp
    next
      case ne: False
      let ?rd1 = "rd\<lparr>state := IN_FIELD, field := field rd @ f\<rparr>"
      have s2: "parse_process_char ?rd1 (Some 13) = Inr ?done"
        using assms(2) by (simp add: is_newline_def parse_save_field_def after_newline_def)
      have "csv_reader rd pending (csv_field f @ 13 # 10 # s) = csv_reader ?rd1 True (13 # 10 # s)"
        unfolding cf using plain ne by (rule read_unquoted_start) (simp add: assms(1))
      also have "\<dots> = csv_reader ?done True (10 # s)"
        using s2 by (rule cr)
      finally show ?thesis using eol by simp
    qed
  qed
qed

text \<open>A record of at least two fields, as written with its line end, is read back.\<close>

lemma read_record:
  assumes "state rd = START_RECORD \<or> state rd = START_FIELD" and "field rd = []" and "fs \<noteq> []"
  shows "csv_reader rd pending (join_fields (f # fs) @ 13 # 10 # s) =
         (case csv_reader parse_reset False s of
            Inl e \<Rightarrow> Inl e
          | Inr recs \<Rightarrow> Inr ((fieldlist rd @ f # fs) # recs))"
  using assms
proof (induction fs arbitrary: f rd pending)
  case Nil
  then show ?case by simp
next
  case (Cons g gs)
  let ?rd1 = "\<lparr>state = START_FIELD, field = [], fieldlist = fieldlist rd @ [f]\<rparr>"
  have first: "csv_reader rd pending (join_fields (f # g # gs) @ 13 # 10 # s) =
               csv_reader ?rd1 True (join_fields (g # gs) @ 13 # 10 # s)"
    using read_field_comma [OF Cons.prems(1,2), of pending f "join_fields (g # gs) @ 13 # 10 # s"]
    by simp
  show ?case
  proof (cases gs)
    case Nil
    have "csv_reader ?rd1 True (csv_field g @ 13 # 10 # s) =
          (case csv_reader parse_reset False s of
             Inl e \<Rightarrow> Inl e
           | Inr recs \<Rightarrow> Inr ((fieldlist ?rd1 @ [g]) # recs))"
      by (rule read_field_crlf) simp_all
    with first Nil show ?thesis by (simp cong: sum.case_cong)
  next
    case (Cons h hs)
    have "csv_reader ?rd1 True (join_fields (g # gs) @ 13 # 10 # s) =
          (case csv_reader parse_reset False s of
             Inl e \<Rightarrow> Inl e
           | Inr recs \<Rightarrow> Inr ((fieldlist ?rd1 @ g # gs) # recs))"
      by (rule Cons.IH) (simp_all add: Cons)
    with first show ?thesis by (simp cong: sum.case_cong)
  qed
qed

lemma read_records:
  assumes "\<forall>fs\<in>set recs. 2 \<le> length fs"
  shows "read_csv (concat (map (\<lambda>fs. join_fields fs @ [13, 10]) recs)) = Inr recs"
  using assms
proof (induction recs)
  case Nil
  then show ?case by (simp add: read_csv_def end_of_input_def parse_reset_def)
next
  case (Cons fs recs)
  from Cons.prems obtain f g gs where fs: "fs = f # g # gs"
    by (cases fs; cases "tl fs") auto
  have "csv_reader parse_reset False
          (join_fields (f # g # gs) @ 13 # 10 # concat (map (\<lambda>fs. join_fields fs @ [13, 10]) recs)) =
        (case csv_reader parse_reset False (concat (map (\<lambda>fs. join_fields fs @ [13, 10]) recs)) of
           Inl e \<Rightarrow> Inl e
         | Inr rs \<Rightarrow> Inr ((fieldlist parse_reset @ f # g # gs) # rs))"
    by (rule read_record) (simp_all add: parse_reset_def)
  moreover have "csv_reader parse_reset False (concat (map (\<lambda>fs. join_fields fs @ [13, 10]) recs)) = Inr recs"
    using Cons by (simp add: read_csv_def)
  ultimately show ?case
    by (simp add: read_csv_def fs parse_reset_def cong: sum.case_cong)
qed

text \<open>
  C8: the table written for \<open>N\<close> rows, read back by the reader of the same library, is the
  header followed by \<open>N\<close> records in the order of the rows, each the values of the eight
  fields of its row, the empty string for a key the row does not have.
\<close>

theorem write_artifacts_round_trip:
  "\<exists>out. write_artifacts rows ts = Inr out \<and>
     read_csv (results_csv out) =
       Inr (FIELDS # map (\<lambda>r. map (\<lambda>k. case map_of r k of None \<Rightarrow> [] | Some v \<Rightarrow> v) FIELDS) rows) \<and>
     length (map (\<lambda>r. map (\<lambda>k. case map_of r k of None \<Rightarrow> [] | Some v \<Rightarrow> v) FIELDS) rows) = length rows"
proof -
  let ?vals = "\<lambda>r. map (\<lambda>k. dict_get r k []) FIELDS"
  have csv: "join_fields FIELDS @ [13, 10] @ concat (map (\<lambda>r. join_fields (?vals r) @ [13, 10]) rows) =
        concat (map (\<lambda>fs. join_fields fs @ [13, 10]) (FIELDS # map ?vals rows))"
    by (simp add: comp_def)
  have "\<forall>fs\<in>set (FIELDS # map ?vals rows). 2 \<le> length fs"
    by (auto simp: FIELDS_def)
  then have "read_csv (concat (map (\<lambda>fs. join_fields fs @ [13, 10]) (FIELDS # map ?vals rows))) =
        Inr (FIELDS # map ?vals rows)"
    by (rule read_records)
  moreover have "?vals = (\<lambda>r. map (\<lambda>k. case map_of r k of None \<Rightarrow> [] | Some v \<Rightarrow> v) FIELDS)"
    by (simp add: dict_get_def)
  ultimately show ?thesis
    unfolding write_artifacts_eq csv by simp
qed

text \<open>
  The witness: two rows, the first with a comma, a quote and line ends in its values and
  six keys missing, the second with no key at all.
\<close>

theorem write_artifacts_round_trip_witness:
  "\<exists>out. write_artifacts [[(str ''votes'', str ''1,2''), (str ''party'', [34, 13, 10, 34, 34, 13])], []]
            (str ''T'') = Inr out \<and>
     read_csv (results_csv out) =
       Inr [FIELDS,
            [[], [], [], [34, 13, 10, 34, 34, 13], str ''1,2'', [], [], []],
            [[], [], [], [], [], [], [], []]]"
proof -
  have "map (\<lambda>r. map (\<lambda>k. case map_of r k of None \<Rightarrow> [] | Some v \<Rightarrow> v) FIELDS)
          [[(str ''votes'', str ''1,2''), (str ''party'', [34, 13, 10, 34, 34, 13])], []] =
        [[[], [], [], [34, 13, 10, 34, 34, 13], str ''1,2'', [], [], []],
         [[], [], [], [], [], [], [], []]]"
    by (simp add: FIELDS_def str_def)
  with write_artifacts_round_trip
    [of "[[(str ''votes'', str ''1,2''), (str ''party'', [34, 13, 10, 34, 34, 13])], []]" "str ''T''"]
  show ?thesis by simp
qed


end
